theory Spec2Isabelle
  imports Main "HOL-Library.Log_Nat"
begin

section \<open>Text: code units, the two patterns of content.js\<close>

text \<open>
  A JavaScript string is a sequence of UTF-16 code units. The embedding covers the code
  units below 256 (the Latin-1 block, which holds every character of the two patterns):
  a \<^typ>\<open>char\<close> is one code unit and a \<^typ>\<open>string\<close> is a JavaScript string.
\<close>

definition inRange :: "nat \<Rightarrow> nat \<Rightarrow> char \<Rightarrow> bool" where
  "inRange lo hi c = (lo \<le> of_char c \<and> of_char c \<le> hi)"

text \<open>The class \<open>\d\<close>.\<close>

definition isDigit :: "char \<Rightarrow> bool" where
  "isDigit c = (c \<in> set ''0123456789'')"

text \<open>
  The class \<open>\s\<close> (WhiteSpace and LineTerminator), which is also the set that
  \<open>parseFloat\<close> trims: TAB, LF, VT, FF, CR, space and the no-break space.
\<close>

definition isSpace :: "char \<Rightarrow> bool" where
  "isSpace c = (c \<in> {CHR 0x09, CHR 0x0A, CHR 0x0B, CHR 0x0C, CHR 0x0D, CHR 0x20, CHR 0xA0})"

text \<open>
  Canonicalize of the \<open>i\<close> flag (upper case of one code unit) and \<open>toLowerCase\<close>.
  Bit 5 separates the two cases of a Latin-1 letter. The two letters whose upper case lies
  beyond Latin-1 (0xB5, 0xFF) and 0xDF (upper case of two units) are fixed points, which
  keeps every comparison between canonical forms as it is in JavaScript.
\<close>

definition toUpperChar :: "char \<Rightarrow> char" where
  "toUpperChar c =
     (if inRange 97 122 c \<or> (inRange 224 254 c \<and> c \<noteq> CHR 0xF7)
      then Char (digit0 c) (digit1 c) (digit2 c) (digit3 c) (digit4 c) False (digit6 c) (digit7 c)
      else c)"

definition toLowerChar :: "char \<Rightarrow> char" where
  "toLowerChar c =
     (if inRange 65 90 c \<or> (inRange 192 222 c \<and> c \<noteq> CHR 0xD7)
      then Char (digit0 c) (digit1 c) (digit2 c) (digit3 c) (digit4 c) True (digit6 c) (digit7 c)
      else c)"

definition toLowerCase :: "string \<Rightarrow> string" where
  "toLowerCase s = map toLowerChar s"

text \<open>The first success of a backtracking search over a list of choices.\<close>

fun firstSome :: "('a \<Rightarrow> 'b option) \<Rightarrow> 'a list \<Rightarrow> 'b option" where
  "firstSome f [] = None"
| "firstSome f (x # xs) = (case f x of Some y \<Rightarrow> Some y | None \<Rightarrow> firstSome f xs)"

text \<open>
  \<open>\d+\<close> at the head of the input: every non-empty run of digits it can take with the
  input left over, the longest first (greedy, then backtracking).
\<close>

definition digitsPlus :: "string \<Rightarrow> (string \<times> string) list" where
  "digitsPlus s =
     map (\<lambda>k. (take k s, drop k s)) (rev [1 ..< Suc (length (takeWhile isDigit s))])"

text \<open>\<open>\s*\<close>: the input left over, the longest run of white space first.\<close>

definition spacesStar :: "string \<Rightarrow> string list" where
  "spacesStar s = map (\<lambda>k. drop k s) (rev [0 ..< Suc (length (takeWhile isSpace s))])"

text \<open>
  Group 1, \<open>(\d+[.,]\d+|\d+)\<close>: the choices of the first alternative, then those of
  the second.
\<close>

definition fraction :: "string \<times> string \<Rightarrow> (string \<times> string) list" where
  "fraction ar =
     (case snd ar of
        [] \<Rightarrow> []
      | c # r \<Rightarrow>
          if c = CHR ''.'' \<or> c = CHR '',''
          then map (\<lambda>br. (fst ar @ c # fst br, snd br)) (digitsPlus r)
          else [])"

definition numberGroup :: "string \<Rightarrow> (string \<times> string) list" where
  "numberGroup s = concat (map fraction (digitsPlus s)) @ digitsPlus s"

text \<open>A literal of the pattern at the head of the input, ignoring case.\<close>

definition literalCI :: "string \<Rightarrow> string \<Rightarrow> bool" where
  "literalCI t s =
     (length t \<le> length s \<and> map toUpperChar (take (length t) s) = map toUpperChar t)"

text \<open>Group 2: the first alternative that matches; the group holds the text of the input.\<close>

fun unitGroup :: "string list \<Rightarrow> string \<Rightarrow> string option" where
  "unitGroup [] s = None"
| "unitGroup (t # ts) s = (if literalCI t s then Some (take (length t) s) else unitGroup ts s)"

text \<open>The whole pattern at the head of the input: groups 1 and 2 of the first success.\<close>

definition matchAt :: "string list \<Rightarrow> string \<Rightarrow> (string \<times> string) option" where
  "matchAt toks s =
     firstSome (\<lambda>nr. firstSome (\<lambda>z. map_option (\<lambda>u. (fst nr, u)) (unitGroup toks z))
                        (spacesStar (snd nr)))
       (numberGroup s)"

text \<open>
  \<open>text.match(REGEX)\<close> without the \<open>g\<close> flag: the leftmost position where the
  pattern succeeds; \<open>None\<close> is \<open>null\<close>.
\<close>

fun regexMatch :: "string list \<Rightarrow> string \<Rightarrow> (string \<times> string) option" where
  "regexMatch toks [] = None"
| "regexMatch toks (c # cs) =
     (case matchAt toks (c # cs) of Some m \<Rightarrow> Some m | None \<Rightarrow> regexMatch toks cs)"

text \<open>
  The alternatives of group 2 of the two patterns, in the order of the source. The sixth
  currency token is the two code units 0xC2 0xA3, as the source file has it.
\<close>

definition PRICE_REGEX :: "string list" where
  "PRICE_REGEX = [''kr'', ''sek'', ''eur'', ''euro'', ''$'', [CHR 0xC2, CHR 0xA3], ''usd'', ''gbp'']"

definition WEIGHT_REGEX :: "string list" where
  "WEIGHT_REGEX = [''g'', ''kg'', ''l'', ''ml'']"

definition PROCESSED_ATTR :: string where
  "PROCESSED_ATTR = ''data-unit-price-processed''"

definition ANNOTATION_CLASS :: string where
  "ANNOTATION_CLASS = ''unit-price-kr-kg-appended''"

section \<open>Numbers\<close>

text \<open>
  A Number is NaN, an infinity or a finite binary64 value, kept as sign and magnitude (so
  that the two zeros differ). Every operation rounds its exact result to the nearest
  binary64 value, ties to even, and overflows to an infinity.
\<close>

datatype jsnum = NaN | Infinite bool | Finite bool rat

definition pow2 :: "int \<Rightarrow> rat" where
  "pow2 k = (if 0 \<le> k then of_int (2 ^ nat k) else 1 / of_int (2 ^ nat (- k)))"

definition pow10 :: "int \<Rightarrow> rat" where
  "pow10 k = (if 0 \<le> k then of_int (10 ^ nat k) else 1 / of_int (10 ^ nat (- k)))"

text \<open>The exponent \<open>e\<close> with \<open>2^e \<le> x < 2^(e+1)\<close>, for a positive \<open>x\<close>.\<close>

definition ilog2 :: "rat \<Rightarrow> int" where
  "ilog2 x =
     (let e0 = bitlen (fst (quotient_of x)) - bitlen (snd (quotient_of x))
      in if pow2 e0 \<le> x then e0 else e0 - 1)"

definition roundHalfEven :: "rat \<Rightarrow> int" where
  "roundHalfEven r =
     (let f = \<lfloor>r\<rfloor>; d = r - of_int f
      in if d < 1 / 2 then f else if 1 / 2 < d then f + 1 else if even f then f else f + 1)"

text \<open>
  The magnitude rounded to 53 significant bits (fewer below \<open>2^-1022\<close>); a result of
  \<open>2^1024\<close> or more, that is one whose exponent is 1024 or more, stands for an
  overflow.
\<close>

definition roundBinary64 :: "rat \<Rightarrow> rat" where
  "roundBinary64 x =
     (if x = 0 then 0
      else let q = max (ilog2 x) (- 1022) - 52
           in of_int (roundHalfEven (x / pow2 q)) * pow2 q)"

definition fromRat :: "bool \<Rightarrow> rat \<Rightarrow> jsnum" where
  "fromRat neg x =
     (let y = roundBinary64 x
      in if y \<noteq> 0 \<and> 1024 \<le> ilog2 y then Infinite neg else Finite neg y)"

fun jsDiv :: "jsnum \<Rightarrow> jsnum \<Rightarrow> jsnum" where
  "jsDiv NaN b = NaN"
| "jsDiv a NaN = NaN"
| "jsDiv (Infinite s) (Infinite t) = NaN"
| "jsDiv (Infinite s) (Finite t y) = Infinite (s \<noteq> t)"
| "jsDiv (Finite s x) (Infinite t) = Finite (s \<noteq> t) 0"
| "jsDiv (Finite s x) (Finite t y) =
     (if y = 0 then (if x = 0 then NaN else Infinite (s \<noteq> t)) else fromRat (s \<noteq> t) (x / y))"

fun jsMul :: "jsnum \<Rightarrow> jsnum \<Rightarrow> jsnum" where
  "jsMul NaN b = NaN"
| "jsMul a NaN = NaN"
| "jsMul (Infinite s) (Infinite t) = Infinite (s \<noteq> t)"
| "jsMul (Infinite s) (Finite t y) = (if y = 0 then NaN else Infinite (s \<noteq> t))"
| "jsMul (Finite s x) (Infinite t) = (if x = 0 then NaN else Infinite (s \<noteq> t))"
| "jsMul (Finite s x) (Finite t y) = fromRat (s \<noteq> t) (x * y)"

text \<open>\<open>Number.isNaN(x)\<close> and \<open>x > 0\<close>.\<close>

fun isNaN :: "jsnum \<Rightarrow> bool" where
  "isNaN NaN = True"
| "isNaN (Infinite s) = False"
| "isNaN (Finite s x) = False"

fun greaterZero :: "jsnum \<Rightarrow> bool" where
  "greaterZero NaN = False"
| "greaterZero (Infinite s) = (\<not> s)"
| "greaterZero (Finite s x) = (\<not> s \<and> 0 < x)"

subsection \<open>parseFloat and cleanNumber\<close>

fun digitsValue :: "int \<Rightarrow> string \<Rightarrow> int" where
  "digitsValue acc [] = acc"
| "digitsValue acc (c # cs) = digitsValue (10 * acc + (of_char c - 48)) cs"

text \<open>The value of an ExponentPart at the head of the input, 0 when there is none.\<close>

definition exponentPart :: "string \<Rightarrow> int" where
  "exponentPart s =
     (case s of
        [] \<Rightarrow> 0
      | c # r \<Rightarrow>
          if c = CHR ''e'' \<or> c = CHR ''E'' then
            (case r of
               [] \<Rightarrow> 0
             | d # r' \<Rightarrow>
                 if d = CHR ''-'' then
                   - digitsValue 0 (takeWhile isDigit r')
                 else if d = CHR ''+'' then digitsValue 0 (takeWhile isDigit r')
                 else digitsValue 0 (takeWhile isDigit r))
          else 0)"

text \<open>
  The longest prefix that is an unsigned StrDecimalLiteral other than \<open>Infinity\<close>:
  digits, an optional fraction, an optional exponent; at least one digit before the
  exponent. The mathematical value is rounded to binary64 (exactly, as V8 does).
\<close>

definition unsignedLiteral :: "bool \<Rightarrow> string \<Rightarrow> jsnum" where
  "unsignedLiteral neg s =
     (let ip = takeWhile isDigit s;
          r1 = dropWhile isDigit s;
          dot = (r1 \<noteq> [] \<and> hd r1 = CHR ''.'');
          fp = (if dot then takeWhile isDigit (tl r1) else []);
          r2 = (if dot then dropWhile isDigit (tl r1) else r1)
      in if ip = [] \<and> fp = [] then NaN
         else fromRat neg (of_int (digitsValue 0 (ip @ fp)) * pow10 (exponentPart r2 - int (length fp))))"

definition signedLiteral :: "bool \<Rightarrow> string \<Rightarrow> jsnum" where
  "signedLiteral neg s =
     (if take 8 s = ''Infinity'' then Infinite neg else unsignedLiteral neg s)"

definition parseFloat :: "string \<Rightarrow> jsnum" where
  "parseFloat str =
     (case dropWhile isSpace str of
        [] \<Rightarrow> NaN
      | c # r \<Rightarrow>
          if c = CHR ''-'' then signedLiteral True r
          else if c = CHR ''+'' then signedLiteral False r
          else signedLiteral False (c # r))"

text \<open>\<open>value.replace(",", ".")\<close>: the first comma only.\<close>

fun replaceComma :: "string \<Rightarrow> string" where
  "replaceComma [] = []"
| "replaceComma (c # cs) = (if c = CHR '','' then CHR ''.'' # cs else c # replaceComma cs)"

definition cleanNumber :: "string \<Rightarrow> jsnum" where
  "cleanNumber v = parseFloat (replaceComma v)"

subsection \<open>toFixed(2)\<close>

definition digitChar :: "int \<Rightarrow> char" where
  "digitChar d = ''0123456789'' ! nat (d mod 10)"

function digitsOf :: "int \<Rightarrow> string" where
  "digitsOf n = (if n < 10 then [digitChar n] else digitsOf (n div 10) @ [digitChar (n mod 10)])"
  by pat_completeness auto
termination
  by (relation "measure nat") auto

text \<open>
  Fixed notation, for \<open>0 \<le> x < 10^21\<close>: the integer \<open>n\<close> with \<open>n / 100\<close> nearest
  to \<open>x\<close>, the larger one of two; its digits, padded to three, with the point before
  the last two.
\<close>

definition fixedNotation :: "rat \<Rightarrow> string" where
  "fixedNotation x =
     (let m = digitsOf \<lfloor>x * 100 + 1 / 2\<rfloor>;
          m' = (if length m \<le> 2 then replicate (3 - length m) CHR ''0'' @ m else m)
      in take (length m' - 2) m' @ ''.'' @ drop (length m' - 2) m')"

text \<open>
  From \<open>10^21\<close> on, toFixed returns Number::toString: the fewest digits \<open>s\<close> (\<open>k\<close>
  of them) and the exponent \<open>n\<close> such that \<open>s * 10^(n-k)\<close> rounds to \<open>x\<close>, the
  nearest to \<open>x\<close> of several.
\<close>

definition decimalCandidates :: "rat \<Rightarrow> nat \<Rightarrow> (nat \<times> int) list" where
  "decimalCandidates x k =
     filter (\<lambda>ns. 10 ^ (k - 1) \<le> snd ns \<and> snd ns < 10 ^ k
                 \<and> roundBinary64 (of_int (snd ns * 10 ^ (fst ns - k))) = x)
       (concat (map (\<lambda>n. [(n, \<lfloor>x / of_int (10 ^ (n - k))\<rfloor>),
                           (n, \<lfloor>x / of_int (10 ^ (n - k))\<rfloor> + 1)])
                  [length (digitsOf \<lfloor>x\<rfloor>), Suc (length (digitsOf \<lfloor>x\<rfloor>))]))"

definition distance :: "rat \<Rightarrow> nat \<Rightarrow> nat \<times> int \<Rightarrow> rat" where
  "distance x k ns = \<bar>of_int (snd ns * 10 ^ (fst ns - k)) - x\<bar>"

fun closest :: "rat \<Rightarrow> nat \<Rightarrow> nat \<times> int \<Rightarrow> (nat \<times> int) list \<Rightarrow> nat \<times> int" where
  "closest x k best [] = best"
| "closest x k best (c # cs) =
     closest x k
       (if distance x k c < distance x k best
           \<or> (distance x k c = distance x k best \<and> even (snd c) \<and> odd (snd best))
        then c else best) cs"

definition shortestDecimal :: "rat \<Rightarrow> nat \<times> nat \<times> int" where
  "shortestDecimal x =
     (case firstSome (\<lambda>k. case decimalCandidates x k of
                               [] \<Rightarrow> None
                             | c # cs \<Rightarrow> Some (k, closest x k c cs)) [1 ..< 18] of
        Some (k, ns) \<Rightarrow> (fst ns, k, snd ns)
      | None \<Rightarrow> (length (digitsOf \<lfloor>x\<rfloor>), length (digitsOf \<lfloor>x\<rfloor>), \<lfloor>x\<rfloor>))"

definition exponentNotation :: "rat \<Rightarrow> string" where
  "exponentNotation x =
     (case shortestDecimal x of
        (n, k, s) \<Rightarrow>
          (if k = 1 then digitsOf s else take 1 (digitsOf s) @ ''.'' @ drop 1 (digitsOf s))
          @ ''e+'' @ digitsOf (int n - 1))"

fun toFixed2 :: "jsnum \<Rightarrow> string" where
  "toFixed2 NaN = ''NaN''"
| "toFixed2 (Infinite s) = (if s then ''-Infinity'' else ''Infinity'')"
| "toFixed2 (Finite s x) =
     (if s \<and> 0 < x then ''-'' else [])
     @ (if of_int (10 ^ 21) \<le> x then exponentNotation x else fixedNotation x)"

section \<open>calculateAndFormatUnit\<close>

definition calculateAndFormatUnit :: "jsnum \<Rightarrow> jsnum \<Rightarrow> string \<Rightarrow> string" where
  "calculateAndFormatUnit priceKr weightValue unit =
     (let lowerUnit = toLowerCase unit
      in if lowerUnit = ''g'' \<or> lowerUnit = ''ml''
         then ''~'' @ toFixed2 (jsMul (jsDiv priceKr weightValue) (Finite False 1000))
              @ '' / '' @ (if lowerUnit = ''g'' then ''kg'' else ''L'')
         else ''~'' @ toFixed2 (jsDiv priceKr weightValue)
              @ '' / '' @ (if lowerUnit = ''kg'' then ''kg'' else ''L''))"

section \<open>The document tree\<close>

text \<open>
  A node is a text node or an element. An element carries its identity (the object that a
  JavaScript reference denotes; distinct elements of a document have distinct
  identities), its \<open>tagName\<close>, its \<open>classList\<close>, whether it has the attribute
  \<open>data-unit-price-processed\<close>, and its \<open>childNodes\<close>. A document is its root element;
  a reference to an element is the identity, resolved in the current tree.
\<close>

datatype node = TextNode string | Element nat string "string list" bool "node list"

fun isElement :: "node \<Rightarrow> bool" where
  "isElement (TextNode s) = False"
| "isElement (Element i t c p ks) = True"

fun elemId :: "node \<Rightarrow> nat" where
  "elemId (TextNode s) = 0"
| "elemId (Element i t c p ks) = i"

fun tagName :: "node \<Rightarrow> string" where
  "tagName (TextNode s) = []"
| "tagName (Element i t c p ks) = t"

fun classList :: "node \<Rightarrow> string list" where
  "classList (TextNode s) = []"
| "classList (Element i t c p ks) = c"

fun isProcessed :: "node \<Rightarrow> bool" where
  "isProcessed (TextNode s) = False"
| "isProcessed (Element i t c p ks) = p"

fun childNodes :: "node \<Rightarrow> node list" where
  "childNodes (TextNode s) = []"
| "childNodes (Element i t c p ks) = ks"

text \<open>\<open>el.children\<close>: the child nodes that are elements.\<close>

definition children :: "node \<Rightarrow> node list" where
  "children n = filter isElement (childNodes n)"

text \<open>\<open>node.textContent\<close>: the texts of the descendant text nodes, in tree order.\<close>

fun textContent :: "node \<Rightarrow> string" where
  "textContent (TextNode s) = s"
| "textContent (Element i t c p ks) = concat (map textContent ks)"

text \<open>The element itself and its descendant elements, in document order.\<close>

fun elements :: "node \<Rightarrow> node list" where
  "elements (TextNode s) = []"
| "elements (Element i t c p ks) = Element i t c p ks # concat (map elements ks)"

text \<open>\<open>el.querySelectorAll("*")\<close>: the descendant elements, without \<open>el\<close> itself.\<close>

definition querySelectorAll :: "node \<Rightarrow> node list" where
  "querySelectorAll n = concat (map elements (childNodes n))"

text \<open>The element that a reference denotes in the tree.\<close>

definition lookup :: "node \<Rightarrow> nat \<Rightarrow> node option" where
  "lookup doc i = find (\<lambda>e. elemId e = i) (elements doc)"

definition hasAttribute :: "node \<Rightarrow> nat \<Rightarrow> bool" where
  "hasAttribute doc i = (case lookup doc i of None \<Rightarrow> False | Some e \<Rightarrow> isProcessed e)"

text \<open>\<open>el.setAttribute(PROCESSED_ATTR, 'true')\<close>, on the element of identity \<open>i\<close>.\<close>

fun setAttribute :: "nat \<Rightarrow> node \<Rightarrow> node" where
  "setAttribute i (TextNode s) = TextNode s"
| "setAttribute i (Element j t c p ks) = Element j t c (p \<or> i = j) (map (setAttribute i) ks)"

fun firstJust :: "'a option list \<Rightarrow> 'a option" where
  "firstJust [] = None"
| "firstJust (None # rs) = firstJust rs"
| "firstJust (Some r # rs) = Some r"

definition isElem :: "nat \<Rightarrow> node \<Rightarrow> bool" where
  "isElem i k = (isElement k \<and> elemId k = i)"

text \<open>\<open>el.parentElement\<close>; the root element has none.\<close>

fun parentElement :: "node \<Rightarrow> nat \<Rightarrow> nat option" where
  "parentElement (TextNode s) i = None"
| "parentElement (Element j t c p ks) i =
     (if list_ex (isElem i) ks then Some j else firstJust (map (\<lambda>k. parentElement k i) ks))"

text \<open>The child nodes that follow the element \<open>i\<close> under its parent.\<close>

fun siblingsAfter :: "nat \<Rightarrow> node list \<Rightarrow> node list option" where
  "siblingsAfter i [] = None"
| "siblingsAfter i (k # ks) = (if isElem i k then Some ks else siblingsAfter i ks)"

fun followingSiblings :: "node \<Rightarrow> nat \<Rightarrow> node list option" where
  "followingSiblings (TextNode s) i = None"
| "followingSiblings (Element j t c p ks) i =
     (case siblingsAfter i ks of
        Some r \<Rightarrow> Some r
      | None \<Rightarrow> firstJust (map (\<lambda>k. followingSiblings k i) ks))"

definition nextElementSibling :: "node \<Rightarrow> nat \<Rightarrow> node option" where
  "nextElementSibling doc i =
     (case followingSiblings doc i of None \<Rightarrow> None | Some r \<Rightarrow> find isElement r)"

text \<open>
  \<open>parent.insertBefore(new, el.nextSibling)\<close> for the element \<open>el\<close> of identity \<open>i\<close>:
  the new node becomes the child node right after \<open>el\<close>.
\<close>

fun insertAfter :: "nat \<Rightarrow> node \<Rightarrow> node \<Rightarrow> node" where
  "insertAfter i new (TextNode s) = TextNode s"
| "insertAfter i new (Element j t c p ks) =
     Element j t c p (concat (map (\<lambda>k. if isElem i k then [k, new] else [insertAfter i new k]) ks))"

text \<open>\<open>document.createElement\<close> yields an element that is none of those of the tree.\<close>

definition freshId :: "node \<Rightarrow> nat" where
  "freshId doc = Suc (fold max (map elemId (elements doc)) 0)"

text \<open>
  \<open>document.documentElement\<close> is the root; \<open>document.body\<close> is the first child of an
  \<open>html\<close> root that is a \<open>body\<close> or a \<open>frameset\<close>.
\<close>

definition documentElement :: "node \<Rightarrow> nat" where
  "documentElement doc = elemId doc"

definition documentBody :: "node \<Rightarrow> nat option" where
  "documentBody doc =
     (if tagName doc = ''HTML''
      then map_option elemId
             (find (\<lambda>k. isElement k \<and> (tagName k = ''BODY'' \<or> tagName k = ''FRAMESET'')) (childNodes doc))
      else None)"

definition hasAnnotationClass :: "node \<Rightarrow> bool" where
  "hasAnnotationClass n = (ANNOTATION_CLASS \<in> set (classList n))"

text \<open>\<open>text.match(REGEX)\<close> as a condition.\<close>

definition matches :: "string list \<Rightarrow> string \<Rightarrow> bool" where
  "matches toks s = (regexMatch toks s \<noteq> None)"

section \<open>findAndProcessPrices\<close>

definition ignoredTags :: "string list" where
  "ignoredTags = [''SCRIPT'', ''STYLE'', ''NOSCRIPT'', ''HTML'', ''HEAD'', ''META'', ''LINK'']"

text \<open>The filter of step 1, on an element of the tree as it is when the pass starts.\<close>

definition isPotentialPriceElement :: "node \<Rightarrow> node \<Rightarrow> bool" where
  "isPotentialPriceElement doc el =
     (if tagName el \<in> set ignoredTags then False
      else if hasAnnotationClass el then False
      else if Some (elemId el) = documentBody doc \<or> elemId el = documentElement doc then False
      else if \<not> matches PRICE_REGEX (textContent el) then False
      else \<not> list_ex (\<lambda>child. matches PRICE_REGEX (textContent child)) (children el))"

definition potentialPriceElements :: "node \<Rightarrow> nat list" where
  "potentialPriceElements doc = map elemId (filter (isPotentialPriceElement doc) (elements doc))"

record productBlock =
  container :: nat
  elPrice :: nat
  priceKr :: jsnum
  weightValue :: jsnum
  weightUnit :: string

text \<open>
  What a pass does, in order: the containers that the upward walk examines, the marking of
  a container (line 147), the call of processProductBlock (line 148), its warning (line
  166) and its insertion of an annotation with the given text after a price element (line
  195).
\<close>

datatype event =
    Examined nat
  | MarkedContainer nat
  | InjectorCalled productBlock
  | Warned nat
  | Injected nat string

definition elementText :: "node \<Rightarrow> nat \<Rightarrow> string" where
  "elementText doc i = (case lookup doc i of None \<Rightarrow> [] | Some e \<Rightarrow> textContent e)"

definition weightMatches :: "node \<Rightarrow> nat \<Rightarrow> node list" where
  "weightMatches doc c =
     (case lookup doc c of
        None \<Rightarrow> []
      | Some e \<Rightarrow> filter (\<lambda>el. matches WEIGHT_REGEX (textContent el)) (querySelectorAll e))"

text \<open>Lines 105 to 138: the body of one round of the walk, below the check of line 100.\<close>

definition tryContainer :: "node \<Rightarrow> nat \<Rightarrow> nat \<Rightarrow> productBlock option" where
  "tryContainer doc p c =
     (case weightMatches doc c of
        [] \<Rightarrow> None
      | weightElement # others \<Rightarrow>
          (case regexMatch PRICE_REGEX (elementText doc p) of
             None \<Rightarrow> None
           | Some priceMatch \<Rightarrow>
               (case regexMatch WEIGHT_REGEX (textContent weightElement) of
                  None \<Rightarrow> None
                | Some weightMatch \<Rightarrow>
                    if \<not> isNaN (cleanNumber (fst priceMatch))
                       \<and> \<not> isNaN (cleanNumber (fst weightMatch))
                       \<and> greaterZero (cleanNumber (fst priceMatch))
                       \<and> greaterZero (cleanNumber (fst weightMatch))
                    then Some \<lparr>container = c, elPrice = p,
                               priceKr = cleanNumber (fst priceMatch),
                               weightValue = cleanNumber (fst weightMatch),
                               weightUnit = snd weightMatch\<rparr>
                    else None)))"

datatype walkResult = Aborted | Found productBlock | NotFound

text \<open>
  The loop of line 98, with the rounds that are left (8 at the start) and
  \<open>currentContainer\<close>: the containers examined and how the loop ends, by the
  \<open>return\<close> of line 101, the \<open>break\<close> of line 136 or its condition.
\<close>

fun walk :: "node \<Rightarrow> nat \<Rightarrow> nat \<Rightarrow> nat option \<Rightarrow> nat list \<times> walkResult" where
  "walk doc p 0 cur = ([], NotFound)"
| "walk doc p (Suc n) None = ([], NotFound)"
| "walk doc p (Suc n) (Some c) =
     (if hasAttribute doc c then ([c], Aborted)
      else case tryContainer doc p c of
             Some b \<Rightarrow> ([c], Found b)
           | None \<Rightarrow> (case walk doc p n (parentElement doc c) of (vs, r) \<Rightarrow> (c # vs, r)))"

definition annotation :: "nat \<Rightarrow> string \<Rightarrow> node" where
  "annotation i unitPriceText =
     Element i ''SPAN'' [ANNOTATION_CLASS] False [TextNode (''- '' @ unitPriceText)]"

definition processProductBlock :: "node \<Rightarrow> productBlock \<Rightarrow> node \<times> event list" where
  "processProductBlock doc0 b =
     (let doc = setAttribute (elPrice b) doc0
      in if parentElement doc (elPrice b) = None \<or> elPrice b = documentElement doc
            \<or> Some (elPrice b) = documentBody doc
         then (doc, [Warned (elPrice b)])
         else if (case nextElementSibling doc (elPrice b) of
                    None \<Rightarrow> False
                  | Some nextSibling \<Rightarrow> hasAnnotationClass nextSibling)
         then (doc, [])
         else (insertAfter (elPrice b)
                 (annotation (freshId doc)
                    (calculateAndFormatUnit (priceKr b) (weightValue b) (weightUnit b))) doc,
               [Injected (elPrice b)
                  (calculateAndFormatUnit (priceKr b) (weightValue b) (weightUnit b))]))"

text \<open>The body of the \<open>forEach\<close> of line 86, for one price element.\<close>

definition processPriceElement :: "node \<Rightarrow> nat \<Rightarrow> node \<times> event list" where
  "processPriceElement doc p =
     (if hasAttribute doc p then (doc, [])
      else case walk doc p 8 (Some p) of
             (vs, Found b) \<Rightarrow>
               if \<not> hasAttribute doc (container b)
               then (case processProductBlock (setAttribute (container b) doc) b of
                       (doc', evs) \<Rightarrow>
                         (doc', map Examined vs @ MarkedContainer (container b) # InjectorCalled b # evs))
               else (doc, map Examined vs)
           | (vs, r) \<Rightarrow> (doc, map Examined vs))"

fun forEach :: "node \<Rightarrow> nat list \<Rightarrow> node \<times> event list" where
  "forEach doc [] = (doc, [])"
| "forEach doc (p # ps) =
     (case processPriceElement doc p of
        (doc', evs) \<Rightarrow> (case forEach doc' ps of (doc'', evs') \<Rightarrow> (doc'', evs @ evs')))"

definition findAndProcessPrices :: "node \<Rightarrow> node \<times> event list" where
  "findAndProcessPrices doc = forEach doc (potentialPriceElements doc)"

text \<open>A number of passes in a row, nothing else changing the tree in between.\<close>

fun passes :: "nat \<Rightarrow> node \<Rightarrow> node \<times> event list" where
  "passes 0 doc = (doc, [])"
| "passes (Suc n) doc =
     (case findAndProcessPrices doc of
        (doc', evs) \<Rightarrow> (case passes n doc' of (doc'', evs') \<Rightarrow> (doc'', evs @ evs')))"

section \<open>The mutation observer\<close>

record mutationRecord =
  addedNodes :: "node list"

definition hasSelfMutation :: "mutationRecord list \<Rightarrow> bool" where
  "hasSelfMutation mutations =
     list_ex (\<lambda>mutation.
        list_ex (\<lambda>n. if isElement n
                       then hasAnnotationClass n \<or> list_ex hasAnnotationClass (querySelectorAll n)
                       else False)
          (addedNodes mutation)) mutations"

text \<open>
  The two variables of the coordinator: the pending timer, with its delay, and
  \<open>isProcessing\<close>. \<open>startProcessing\<close> clears the timer and sets it anew.
\<close>

record coordinator =
  processingTimeout :: "nat option"
  isProcessing :: bool

definition startProcessing :: "coordinator \<Rightarrow> coordinator" where
  "startProcessing st = st\<lparr>processingTimeout := Some 200\<rparr>"

definition observerCallback :: "mutationRecord list \<Rightarrow> coordinator \<Rightarrow> coordinator" where
  "observerCallback mutations st =
     (if \<not> hasSelfMutation mutations then startProcessing st else st)"

section \<open>Notions in which the properties are stated\<close>

text \<open>
  The element where the walk starts and its ancestors, as many as there are rounds: the
  containers that the loop of line 98 can examine.
\<close>

fun ancestorChain :: "node \<Rightarrow> nat \<Rightarrow> nat option \<Rightarrow> nat list" where
  "ancestorChain doc 0 cur = []"
| "ancestorChain doc (Suc n) None = []"
| "ancestorChain doc (Suc n) (Some c) = c # ancestorChain doc n (parentElement doc c)"

fun examined :: "event list \<Rightarrow> nat list" where
  "examined [] = []"
| "examined (Examined c # es) = c # examined es"
| "examined (e # es) = examined es"

text \<open>
  The events of a given container or price element; the order of marking and call; the
  validation of line 123; what an event list must satisfy so that every call has a
  validated block and every insertion follows the call of its block.
\<close>

fun isMarkOf :: "nat \<Rightarrow> event \<Rightarrow> bool" where
  "isMarkOf c (MarkedContainer c') = (c' = c)"
| "isMarkOf c e = False"

fun isCallFor :: "nat \<Rightarrow> event \<Rightarrow> bool" where
  "isCallFor c (InjectorCalled b) = (container b = c)"
| "isCallFor c e = False"

fun isInjectionAt :: "nat \<Rightarrow> event \<Rightarrow> bool" where
  "isInjectionAt p (Injected q t) = (q = p)"
| "isInjectionAt p e = False"

fun markedThenCalled :: "event list \<Rightarrow> bool" where
  "markedThenCalled [] = True"
| "markedThenCalled (MarkedContainer c # InjectorCalled b # es) = (container b = c \<and> markedThenCalled es)"
| "markedThenCalled (MarkedContainer c # es) = False"
| "markedThenCalled (InjectorCalled b # es) = False"
| "markedThenCalled (e # es) = markedThenCalled es"

definition once :: "(event \<Rightarrow> bool) \<Rightarrow> nat \<Rightarrow> node \<Rightarrow> node \<times> event list \<Rightarrow> bool" where
  "once h j doc res =
     ((hasAttribute doc j \<longrightarrow> filter h (snd res) = [])
      \<and> length (filter h (snd res)) \<le> 1
      \<and> (filter h (snd res) \<noteq> [] \<longrightarrow> hasAttribute (fst res) j)
      \<and> (hasAttribute doc j \<longrightarrow> hasAttribute (fst res) j))"

definition validated :: "productBlock \<Rightarrow> bool" where
  "validated b = (\<not> isNaN (priceKr b) \<and> \<not> isNaN (weightValue b)
                  \<and> greaterZero (priceKr b) \<and> greaterZero (weightValue b))"

fun guarded :: "event list \<Rightarrow> bool" where
  "guarded [] = True"
| "guarded (InjectorCalled b # Injected p t # es) =
     (validated b \<and> p = elPrice b
      \<and> t = calculateAndFormatUnit (priceKr b) (weightValue b) (weightUnit b) \<and> guarded es)"
| "guarded (InjectorCalled b # es) = (validated b \<and> guarded es)"
| "guarded (Injected p t # es) = False"
| "guarded (e # es) = guarded es"

text \<open>The characters of the strings that \<open>toFixed\<close> returns.\<close>

definition numberChars :: string where
  "numberChars = ''0123456789.e+-InfityNa''"

text \<open>A price literal of 310 digits, \<open>10^309\<close>.\<close>

definition hugeLiteral :: string where
  "hugeLiteral = CHR ''1'' # replicate 309 CHR ''0''"

text \<open>
  Passes with changes of the tree by others in between: after each pass the next function
  of the list is applied to the tree that the pass has left.
\<close>

fun passesWith :: "(node \<Rightarrow> node) list \<Rightarrow> node \<Rightarrow> node \<times> event list" where
  "passesWith [] doc = (doc, [])"
| "passesWith (f # fs) doc =
     (case findAndProcessPrices doc of
        (doc', evs) \<Rightarrow> (case passesWith fs (f doc') of (doc'', evs') \<Rightarrow> (doc'', evs @ evs')))"

section \<open>Example documents\<close>

definition simpleExample :: node where
  "simpleExample =
     Element 1 ''HTML'' [] False
       [Element 2 ''BODY'' [] False
          [Element 3 ''DIV'' [] False
             [Element 4 ''SPAN'' [] False [TextNode ''99 kr''],
              Element 5 ''SPAN'' [] False [TextNode ''500 g'']]]]"

definition sharedExample :: node where
  "sharedExample =
     Element 1 ''HTML'' [] False
       [Element 2 ''BODY'' [] False
          [Element 3 ''DIV'' [] False
             [Element 4 ''SPAN'' [] False [TextNode ''10 kr''],
              Element 5 ''SPAN'' [] False [TextNode ''20 kr''],
              Element 6 ''SPAN'' [] False [TextNode ''500 g'']]]]"

definition deepExample :: node where
  "deepExample =
     Element 1 ''HTML'' [] False
       [Element 2 ''BODY'' [] False
          [Element 3 ''DIV'' [] False
             [Element 12 ''SPAN'' [] False [TextNode ''500 g''],
              Element 4 ''DIV'' [] False
               [Element 5 ''DIV'' [] False
                 [Element 6 ''DIV'' [] False
                   [Element 7 ''DIV'' [] False
                     [Element 8 ''DIV'' [] False
                       [Element 9 ''DIV'' [] False
                         [Element 10 ''DIV'' [] False
                           [Element 11 ''SPAN'' [] False [TextNode ''99 kr'']]]]]]]]]]]"

definition markedExample :: node where
  "markedExample =
     Element 1 ''HTML'' [] False
       [Element 2 ''BODY'' [] False
          [Element 3 ''DIV'' [] True
             [Element 4 ''SPAN'' [] True [TextNode ''10 kr''],
              Element 7 ''SPAN'' [''unit-price-kr-kg-appended''] False [TextNode ''- ~20.00 / kg''],
              Element 5 ''SPAN'' [] False [TextNode ''20 kr''],
              Element 6 ''SPAN'' [] False [TextNode ''500 g'']]]]"

definition idempotenceExample :: node where
  "idempotenceExample =
     Element 1 ''HTML'' [] False
       [Element 2 ''BODY'' [] False
          [Element 3 ''DIV'' [] False
             [Element 6 ''SPAN'' [] False [TextNode ''7 kr''],
              Element 4 ''DIV'' [] False
                [Element 5 ''SPAN'' [] False [TextNode ''5 kr 0''],
                 TextNode ''g'',
                 Element 7 ''I'' [] False [TextNode ''100 g'']]]]]"

definition leafExample :: node where
  "leafExample =
     Element 1 ''HTML'' [] False
       [Element 2 ''BODY'' [] False
          [Element 3 ''DIV'' [] False
             [Element 4 ''P'' [] False
                [TextNode ''99 kr '', Element 5 ''B'' [] False [TextNode ''offer'']]]]]"

definition largeExample :: node where
  "largeExample =
     Element 1 ''HTML'' [] False
       [Element 2 ''BODY'' [] False
          [Element 3 ''DIV'' [] False
             [Element 4 ''SPAN'' [] False [TextNode ''1000000000000000000000 kr''],
              Element 5 ''SPAN'' [] False [TextNode ''1 kg'']]]]"

definition zeroExample :: node where
  "zeroExample =
     Element 1 ''HTML'' [] False
       [Element 2 ''BODY'' [] False
          [Element 3 ''DIV'' [] False
             [Element 4 ''SPAN'' [] False [TextNode ''99 kr''],
              Element 5 ''SPAN'' [] False [TextNode ''0 g'']]]]"

section \<open>Number formatting: shape of the fixed notation\<close>

declare digitsOf.simps [simp del]

lemma digitsOf_small: "n < 10 \<Longrightarrow> digitsOf n = [digitChar n]"
  using digitsOf.simps [of n] by simp

lemma digitsOf_big: "10 \<le> n \<Longrightarrow> digitsOf n = digitsOf (n div 10) @ [digitChar (n mod 10)]"
  using digitsOf.simps [of n] by simp

lemma digitsOf_nonempty: "digitsOf n \<noteq> []"
  using digitsOf.simps [of n] by (cases "n < 10") simp_all

lemma digitsOf_split100:
  assumes "100 \<le> n"
  shows "digitsOf n = digitsOf (n div 100) @ [digitChar (n div 10 mod 10), digitChar (n mod 10)]"
proof -
  have a: "digitsOf n = digitsOf (n div 10) @ [digitChar (n mod 10)]"
    using assms by (simp add: digitsOf_big)
  have "10 \<le> n div 10" using assms by simp
  then have b: "digitsOf (n div 10) = digitsOf (n div 10 div 10) @ [digitChar (n div 10 mod 10)]"
    by (rule digitsOf_big)
  have c: "n div 10 div 10 = n div 100" by (simp add: zdiv_zmult2_eq)
  show ?thesis using a b c by simp
qed

text \<open>
  The fixed notation of \<open>x \<ge> 0\<close> is the decimal numeral of the nearest hundredth
  \<open>n / 100\<close>: the digits of \<open>n div 100\<close>, a point and exactly two digits.
\<close>

lemma fixedNotation_shape:
  assumes "0 \<le> x"
  shows "fixedNotation x =
     digitsOf (\<lfloor>x * 100 + 1 / 2\<rfloor> div 100) @ ''.'' @
       [digitChar (\<lfloor>x * 100 + 1 / 2\<rfloor> div 10 mod 10), digitChar (\<lfloor>x * 100 + 1 / 2\<rfloor> mod 10)]"
proof -
  define n where "n = \<lfloor>x * 100 + 1 / 2\<rfloor>"
  have "0 \<le> x * 100 + 1 / 2" using assms by simp
  then have n0: "0 \<le> n" unfolding n_def by simp
  consider "n < 10" | "10 \<le> n" "n < 100" | "100 \<le> n" by linarith
  then have "(let m = digitsOf n;
          m' = (if length m \<le> 2 then replicate (3 - length m) CHR ''0'' @ m else m)
      in take (length m' - 2) m' @ ''.'' @ drop (length m' - 2) m') =
     digitsOf (n div 100) @ ''.'' @ [digitChar (n div 10 mod 10), digitChar (n mod 10)]"
  proof cases
    case 1
    then have "digitsOf n = [digitChar n]" by (rule digitsOf_small)
    moreover have "n div 100 = 0" using 1 n0 by simp
    moreover have "n div 10 = 0" using 1 n0 by simp
    moreover have "n mod 10 = n" using 1 n0 by simp
    ultimately show ?thesis by (simp add: Let_def digitsOf_small digitChar_def)
  next
    case 2
    then have "digitsOf n = [digitChar (n div 10), digitChar (n mod 10)]"
      by (simp add: digitsOf_big digitsOf_small)
    moreover have "n div 100 = 0" using 2 by simp
    moreover have "n div 10 mod 10 = n div 10" using 2 by simp
    ultimately show ?thesis by (simp add: Let_def digitsOf_small digitChar_def)
  next
    case 3
    then show ?thesis
      using digitsOf_nonempty [of "n div 100"]
      by (simp add: Let_def digitsOf_split100)
  qed
  then show ?thesis unfolding fixedNotation_def n_def .
qed

lemma pow2_pos: "0 < pow2 k"
  by (simp add: pow2_def)

lemma roundHalfEven_nonneg: "0 \<le> r \<Longrightarrow> 0 \<le> roundHalfEven r"
  by (simp add: roundHalfEven_def Let_def)

lemma roundBinary64_nonneg: "0 \<le> x \<Longrightarrow> 0 \<le> roundBinary64 x"
  using pow2_pos by (simp add: roundBinary64_def Let_def roundHalfEven_nonneg less_imp_le)

lemma fromRat_nonneg: "0 \<le> x \<Longrightarrow> fromRat n x = Finite s y \<Longrightarrow> s = n \<and> 0 \<le> y"
  using roundBinary64_nonneg [of x] by (auto simp: fromRat_def Let_def split: if_splits)

lemma jsDiv_pos:
  assumes "greaterZero a" and "greaterZero b" and "jsDiv a b = Finite s x"
  shows "\<not> s \<and> 0 \<le> x"
proof (cases a)
  case NaN
  with assms show ?thesis by simp
next
  case (Infinite sa)
  with assms show ?thesis by (cases b) auto
next
  case fa: (Finite sa xa)
  show ?thesis
  proof (cases b)
    case NaN
    with assms show ?thesis by simp
  next
    case (Infinite sb)
    with assms fa show ?thesis by auto
  next
    case (Finite sb xb)
    with assms fa have "fromRat False (xa / xb) = Finite s x" and "0 \<le> xa / xb"
      by (auto split: if_splits)
    then show ?thesis using fromRat_nonneg by blast
  qed
qed

lemma jsMul_1000_pos:
  assumes "greaterZero a" and "greaterZero b"
    and "jsMul (jsDiv a b) (Finite False 1000) = Finite s x"
  shows "\<not> s \<and> 0 \<le> x"
proof (cases "jsDiv a b")
  case NaN
  with assms show ?thesis by simp
next
  case (Infinite sa)
  with assms show ?thesis by simp
next
  case (Finite sa xa)
  then have "\<not> sa \<and> 0 \<le> xa" using jsDiv_pos [OF assms(1,2)] by blast
  moreover have "fromRat (sa \<noteq> False) (xa * 1000) = Finite s x" using assms(3) Finite by simp
  ultimately show ?thesis using fromRat_nonneg [of "xa * 1000" "sa \<noteq> False" s x] by auto
qed

section \<open>C7: the unit price calculation\<close>

text \<open>
  The rate and the label, for every price, weight and unit: the rate is
  \<open>(price / weight) * 1000\<close> for g and ml and \<open>price / weight\<close> otherwise, the label
  is \<open>kg\<close> for g and kg and \<open>L\<close> otherwise, and the output is \<open>~\<close>, what
  \<open>toFixed(2)\<close> makes of the rate, \<open> / \<close> and the label.
\<close>

lemma calculateAndFormatUnit_rate_label:
  "calculateAndFormatUnit price weight unit =
     ''~'' @ toFixed2 (if toLowerCase unit \<in> {''g'', ''ml''}
                       then jsMul (jsDiv price weight) (Finite False 1000)
                       else jsDiv price weight)
     @ '' / '' @ (if toLowerCase unit \<in> {''g'', ''kg''} then ''kg'' else ''L'')"
  by (auto simp: calculateAndFormatUnit_def Let_def)

text \<open>
  For a validated triple whose rate is finite and below \<open>10^21\<close>, the output is \<open>~\<close>,
  the rate rounded to the nearest hundredth (a tie upwards) written with exactly two
  decimals, \<open> / \<close> and the label; the four examples of the specification are among
  these, and \<open>15,5\<close> normalizes to 15.5.
\<close>

lemma calculateAndFormatUnit_fixed:
  assumes "\<not> isNaN price" and "\<not> isNaN weight"
    and "greaterZero price" and "greaterZero weight"
    and "toLowerCase unit \<in> {''g'', ''kg'', ''l'', ''ml''}"
    and "(if toLowerCase unit \<in> {''g'', ''ml''}
          then jsMul (jsDiv price weight) (Finite False 1000)
          else jsDiv price weight) = Finite s rate"
    and "rate < 10 ^ 21"
  shows "calculateAndFormatUnit price weight unit =
           ''~'' @ digitsOf (\<lfloor>rate * 100 + 1 / 2\<rfloor> div 100) @ ''.''
             @ [digitChar (\<lfloor>rate * 100 + 1 / 2\<rfloor> div 10 mod 10),
                digitChar (\<lfloor>rate * 100 + 1 / 2\<rfloor> mod 10)]
             @ '' / '' @ (if toLowerCase unit \<in> {''g'', ''kg''} then ''kg'' else ''L'')
         \<and> calculateAndFormatUnit (Finite False 99) (Finite False 500) ''g'' = ''~198.00 / kg''
         \<and> calculateAndFormatUnit (Finite False 36) (Finite False 800) ''g'' = ''~45.00 / kg''
         \<and> calculateAndFormatUnit (Finite False 20) (Finite False 2) ''l'' = ''~10.00 / L''
         \<and> cleanNumber ''15,5'' = Finite False (31 / 2)
         \<and> calculateAndFormatUnit (cleanNumber ''15,5'') (Finite False 250) ''ml'' = ''~62.00 / L''"
proof -
  have s: "\<not> s \<and> 0 \<le> rate"
  proof (cases "toLowerCase unit \<in> {''g'', ''ml''}")
    case True
    with assms(6) have "jsMul (jsDiv price weight) (Finite False 1000) = Finite s rate"
      by simp
    then show ?thesis by (rule jsMul_1000_pos [OF assms(3,4)])
  next
    case False
    with assms(6) have "jsDiv price weight = Finite s rate" by simp
    then show ?thesis by (rule jsDiv_pos [OF assms(3,4)])
  qed
  then have shape: "fixedNotation rate =
     digitsOf (\<lfloor>rate * 100 + 1 / 2\<rfloor> div 100) @ ''.'' @
       [digitChar (\<lfloor>rate * 100 + 1 / 2\<rfloor> div 10 mod 10), digitChar (\<lfloor>rate * 100 + 1 / 2\<rfloor> mod 10)]"
    by (simp add: fixedNotation_shape)
  have general: "calculateAndFormatUnit price weight unit =
           ''~'' @ digitsOf (\<lfloor>rate * 100 + 1 / 2\<rfloor> div 100) @ ''.''
             @ [digitChar (\<lfloor>rate * 100 + 1 / 2\<rfloor> div 10 mod 10),
                digitChar (\<lfloor>rate * 100 + 1 / 2\<rfloor> mod 10)]
             @ '' / '' @ (if toLowerCase unit \<in> {''g'', ''kg''} then ''kg'' else ''L'')"
    using assms(5,6,7) s
    by (auto simp: calculateAndFormatUnit_def Let_def shape split: if_splits)
  have e1: "calculateAndFormatUnit (Finite False 99) (Finite False 500) ''g'' = ''~198.00 / kg''"
    by code_simp
  have e2: "calculateAndFormatUnit (Finite False 36) (Finite False 800) ''g'' = ''~45.00 / kg''"
    by code_simp
  have e3: "calculateAndFormatUnit (Finite False 20) (Finite False 2) ''l'' = ''~10.00 / L''"
    by code_simp
  have e4: "cleanNumber ''15,5'' = Finite False (31 / 2)"
    by code_simp
  have e5: "calculateAndFormatUnit (cleanNumber ''15,5'') (Finite False 250) ''ml'' = ''~62.00 / L''"
    by code_simp
  show ?thesis using general e1 e2 e3 e4 e5 by blast
qed

lemma calculateAndFormatUnit_fixed_example:
  "\<not> isNaN (Finite False 5) \<and> \<not> isNaN (Finite False 4)
   \<and> greaterZero (Finite False 5) \<and> greaterZero (Finite False 4)
   \<and> toLowerCase ''KG'' \<in> {''g'', ''kg'', ''l'', ''ml''}
   \<and> jsDiv (Finite False 5) (Finite False 4) = Finite False (5 / 4)
   \<and> (5 / 4 :: rat) < 10 ^ 21
   \<and> calculateAndFormatUnit (Finite False 5) (Finite False 4) ''KG'' = ''~1.25 / kg''"
proof -
  have h1: "\<not> isNaN (Finite False 5)" and h2: "\<not> isNaN (Finite False 4)"
    and h3: "greaterZero (Finite False 5)" and h4: "greaterZero (Finite False 4)"
    by simp_all
  have low: "toLowerCase ''KG'' = ''kg''" by code_simp
  have h5: "toLowerCase ''KG'' \<in> {''g'', ''kg'', ''l'', ''ml''}" unfolding low by simp
  have d: "jsDiv (Finite False 5) (Finite False 4) = Finite False (5 / 4)" by code_simp
  have h6: "(if toLowerCase ''KG'' \<in> {''g'', ''ml''}
          then jsMul (jsDiv (Finite False 5) (Finite False 4)) (Finite False 1000)
          else jsDiv (Finite False 5) (Finite False 4)) = Finite False (5 / 4)"
    unfolding low d by simp
  have h7: "(5 / 4 :: rat) < 10 ^ 21" by simp
  have n: "\<lfloor>(5 / 4 :: rat) * 100 + 1 / 2\<rfloor> = 125" by code_simp
  have "calculateAndFormatUnit (Finite False 5) (Finite False 4) ''KG'' =
          ''~'' @ digitsOf (125 div 100) @ ''.'' @ [digitChar (125 div 10 mod 10), digitChar (125 mod 10)]
            @ '' / '' @ (if toLowerCase ''KG'' \<in> {''g'', ''kg''} then ''kg'' else ''L'')"
    using calculateAndFormatUnit_fixed [OF h1 h2 h3 h4 h5 h6 h7] unfolding n by (rule conjunct1)
  then have "calculateAndFormatUnit (Finite False 5) (Finite False 4) ''KG'' = ''~1.25 / kg''"
    unfolding low by (simp add: digitsOf_small digitChar_def)
  then show ?thesis using h1 h2 h3 h4 h5 d h7 by blast
qed

text \<open>
  C7: for every validated triple the output is \<open>~\<close>, the rate rounded to two decimals,
  \<open> / \<close> and the label. The function computes the rate and the label as stated
  and, below \<open>10^21\<close>, writes the rate with two decimals. From \<open>10^21\<close> on it does not do
  what its own comment says (line 44, ``Format the result to two decimal places''):
  \<open>toFixed(2)\<close> leaves the fixed notation there. In \<open>largeExample\<close> the price element
  reads \<open>1000000000000000000000 kr\<close> and the weight element \<open>1 kg\<close>; the pair is
  validated, the rate is \<open>10^21\<close>, and the annotation reads \<open>~1e+21 / kg\<close>, where two
  decimals are \<open>~1000000000000000000000.00 / kg\<close>.
\<close>

theorem calculateAndFormatUnit_exponent_notation:
  "regexMatch PRICE_REGEX ''1000000000000000000000 kr'' = Some (''1000000000000000000000'', ''kr'')
   \<and> cleanNumber ''1000000000000000000000'' = Finite False (10 ^ 21)
   \<and> \<not> isNaN (Finite False (10 ^ 21)) \<and> greaterZero (Finite False (10 ^ 21))
   \<and> \<not> isNaN (Finite False 1) \<and> greaterZero (Finite False 1)
   \<and> jsDiv (Finite False (10 ^ 21)) (Finite False 1) = Finite False (10 ^ 21)
   \<and> calculateAndFormatUnit (Finite False (10 ^ 21)) (Finite False 1) ''kg'' = ''~1e+21 / kg''
   \<and> ''~'' @ fixedNotation (10 ^ 21) @ '' / kg'' = ''~1000000000000000000000.00 / kg''
   \<and> snd (findAndProcessPrices largeExample) =
       [Examined 4, Examined 3, MarkedContainer 3,
        InjectorCalled \<lparr>container = 3, elPrice = 4, priceKr = Finite False (10 ^ 21),
                         weightValue = Finite False 1, weightUnit = ''kg''\<rparr>,
        Injected 4 ''~1e+21 / kg'']"
  by code_simp

section \<open>C1: the filter of the mutation observer\<close>

text \<open>
  C1, as stated: when an added node is unrelated content, scheduling proceeds even if an
  annotation is in the same batch. It fails: for a batch that adds a \<open>div\<close> of new
  content and an annotation, the callback leaves the coordinator as it is (no timer).
\<close>

theorem observerCallback_mixed_batch_counterexample:
  "\<not> hasAnnotationClass (Element 10 ''DIV'' [] False [TextNode ''Milk 12 kr 1 l''])
   \<and> \<not> list_ex hasAnnotationClass
         (querySelectorAll (Element 10 ''DIV'' [] False [TextNode ''Milk 12 kr 1 l'']))
   \<and> observerCallback
        [\<lparr>addedNodes = [Element 10 ''DIV'' [] False [TextNode ''Milk 12 kr 1 l''],
                        annotation 11 ''~12.00 / L'']\<rparr>]
        \<lparr>processingTimeout = None, isProcessing = False\<rparr>
      = \<lparr>processingTimeout = None, isProcessing = False\<rparr>
   \<and> startProcessing \<lparr>processingTimeout = None, isProcessing = False\<rparr>
      = \<lparr>processingTimeout = Some 200, isProcessing = False\<rparr>"
  by (simp add: observerCallback_def hasSelfMutation_def hasAnnotationClass_def
      querySelectorAll_def annotation_def startProcessing_def ANNOTATION_CLASS_def)

text \<open>
  C1, amended: the callback suppresses scheduling if and only if some added node of the
  batch is an element that bears the class \<open>unit-price-kr-kg-appended\<close> or has a
  descendant element that bears it; otherwise it calls \<open>startProcessing\<close>. So a batch
  whose added nodes are annotations only (at least one) schedules nothing, and so does a
  batch that mixes an annotation with unrelated content.
\<close>

theorem observerCallback_suppresses_iff:
  "observerCallback mutations st =
     (if \<exists>m \<in> set mutations. \<exists>n \<in> set (addedNodes m).
           isElement n \<and> (hasAnnotationClass n \<or> (\<exists>d \<in> set (querySelectorAll n). hasAnnotationClass d))
      then st else startProcessing st)"
  by (auto simp: observerCallback_def hasSelfMutation_def list_ex_iff)

theorem observerCallback_suppresses_iff_witness:
  "(\<exists>m \<in> set [\<lparr>addedNodes = [annotation 11 ''~12.00 / L'']\<rparr>]. \<exists>n \<in> set (addedNodes m).
       isElement n \<and> (hasAnnotationClass n \<or> (\<exists>d \<in> set (querySelectorAll n). hasAnnotationClass d)))
   \<and> observerCallback [\<lparr>addedNodes = [annotation 11 ''~12.00 / L'']\<rparr>]
        \<lparr>processingTimeout = None, isProcessing = False\<rparr>
      = \<lparr>processingTimeout = None, isProcessing = False\<rparr>
   \<and> observerCallback [\<lparr>addedNodes = [TextNode ''x'']\<rparr>]
        \<lparr>processingTimeout = None, isProcessing = False\<rparr>
      = \<lparr>processingTimeout = Some 200, isProcessing = False\<rparr>"
proof -
  have a: "\<exists>m \<in> set [\<lparr>addedNodes = [annotation 11 ''~12.00 / L'']\<rparr>]. \<exists>n \<in> set (addedNodes m).
       isElement n \<and> (hasAnnotationClass n \<or> (\<exists>d \<in> set (querySelectorAll n). hasAnnotationClass d))"
    by (simp add: annotation_def hasAnnotationClass_def)
  have b: "\<not> (\<exists>m \<in> set [\<lparr>addedNodes = [TextNode ''x'']\<rparr>]. \<exists>n \<in> set (addedNodes m).
       isElement n \<and> (hasAnnotationClass n \<or> (\<exists>d \<in> set (querySelectorAll n). hasAnnotationClass d)))"
    by simp
  show ?thesis
    using a b
      observerCallback_suppresses_iff [of "[\<lparr>addedNodes = [annotation 11 ''~12.00 / L'']\<rparr>]"
        "\<lparr>processingTimeout = None, isProcessing = False\<rparr>"]
      observerCallback_suppresses_iff [of "[\<lparr>addedNodes = [TextNode ''x'']\<rparr>]"
        "\<lparr>processingTimeout = None, isProcessing = False\<rparr>"]
    by (simp add: startProcessing_def)
qed

section \<open>The example documents, run\<close>

lemma simple_pass1:
  "findAndProcessPrices simpleExample =
     (Element 1 ''HTML'' [] False
        [Element 2 ''BODY'' [] False
           [Element 3 ''DIV'' [] True
              [Element 4 ''SPAN'' [] True [TextNode ''99 kr''],
               Element 6 ''SPAN'' [''unit-price-kr-kg-appended''] False [TextNode ''- ~198.00 / kg''],
               Element 5 ''SPAN'' [] False [TextNode ''500 g'']]]],
      [Examined 4, Examined 3, MarkedContainer 3,
       InjectorCalled \<lparr>container = 3, elPrice = 4, priceKr = Finite False 99,
                        weightValue = Finite False 500, weightUnit = ''g''\<rparr>,
       Injected 4 ''~198.00 / kg''])"
  by code_simp

lemma simple_pass2:
  "findAndProcessPrices
     (Element 1 ''HTML'' [] False
        [Element 2 ''BODY'' [] False
           [Element 3 ''DIV'' [] True
              [Element 4 ''SPAN'' [] True [TextNode ''99 kr''],
               Element 6 ''SPAN'' [''unit-price-kr-kg-appended''] False [TextNode ''- ~198.00 / kg''],
               Element 5 ''SPAN'' [] False [TextNode ''500 g'']]]]) =
     (Element 1 ''HTML'' [] False
        [Element 2 ''BODY'' [] False
           [Element 3 ''DIV'' [] True
              [Element 4 ''SPAN'' [] True [TextNode ''99 kr''],
               Element 6 ''SPAN'' [''unit-price-kr-kg-appended''] False [TextNode ''- ~198.00 / kg''],
               Element 5 ''SPAN'' [] False [TextNode ''500 g'']]]],
      [])"
  by code_simp

lemma simple_candidates2:
  "\<forall>q \<in> set (potentialPriceElements
      (Element 1 ''HTML'' [] False
        [Element 2 ''BODY'' [] False
           [Element 3 ''DIV'' [] True
              [Element 4 ''SPAN'' [] True [TextNode ''99 kr''],
               Element 6 ''SPAN'' [''unit-price-kr-kg-appended''] False [TextNode ''- ~198.00 / kg''],
               Element 5 ''SPAN'' [] False [TextNode ''500 g'']]]])).
     hasAttribute
      (Element 1 ''HTML'' [] False
        [Element 2 ''BODY'' [] False
           [Element 3 ''DIV'' [] True
              [Element 4 ''SPAN'' [] True [TextNode ''99 kr''],
               Element 6 ''SPAN'' [''unit-price-kr-kg-appended''] False [TextNode ''- ~198.00 / kg''],
               Element 5 ''SPAN'' [] False [TextNode ''500 g'']]]]) q"
  by code_simp

lemma shared_pass:
  "snd (findAndProcessPrices sharedExample) =
     [Examined 4, Examined 3, MarkedContainer 3,
      InjectorCalled \<lparr>container = 3, elPrice = 4, priceKr = Finite False 10,
                       weightValue = Finite False 500, weightUnit = ''g''\<rparr>,
      Injected 4 ''~20.00 / kg'', Examined 5, Examined 3]"
  by code_simp

lemma idem1:
  "snd (findAndProcessPrices idempotenceExample) =
   [Examined 6, Examined 3, Examined 2, Examined 1, Examined 5, Examined 4,
  MarkedContainer 4,
  InjectorCalled
   \<lparr>container = 4, elPrice = 5, priceKr = Finite False 5,
      weightValue = Finite False 100, weightUnit = ''g''\<rparr>,
  Injected 5 ''~50.00 / kg'']"
  by code_simp

lemma idem2:
  "snd (findAndProcessPrices (fst (findAndProcessPrices idempotenceExample))) =
   [Examined 6, Examined 3, MarkedContainer 3,
  InjectorCalled
   \<lparr>container = 3, elPrice = 6, priceKr = Finite False 7,
      weightValue = Finite False 100, weightUnit = ''g''\<rparr>,
  Injected 6 ''~70.00 / kg'']"
  by code_simp

lemma deep1: "ancestorChain deepExample 8 (Some 11) = [11, 10, 9, 8, 7, 6, 5, 4]"
  by code_simp
lemma deep2: "\<forall>c \<in> set [11, 10, 9, 8, 7, 6, 5, 4]. weightMatches deepExample c = []"
  by code_simp
lemma deep3: "weightMatches deepExample 3 = [Element 12 ''SPAN'' [] False [TextNode ''500 g'']]"
  by code_simp
lemma marked1: "ancestorChain markedExample 8 (Some 5) = [5] @ 3 # [2, 1]"
  by code_simp
lemma marked2: "hasAttribute markedExample 3"
  by code_simp
lemma marked3: "\<forall>a \<in> set [5]. \<not> hasAttribute markedExample a \<and> tryContainer markedExample 5 a = None"
  by code_simp
lemma leaf1: "isPotentialPriceElement leafExample
    (Element 4 ''P'' [] False [TextNode ''99 kr '', Element 5 ''B'' [] False [TextNode ''offer'']])"
  by code_simp
lemma passes2: "snd (passes 2 simpleExample) = [Examined 4, Examined 3, MarkedContainer 3,
       InjectorCalled \<lparr>container = 3, elPrice = 4, priceKr = Finite False 99,
                        weightValue = Finite False 500, weightUnit = ''g''\<rparr>,
       Injected 4 ''~198.00 / kg'']"
  by code_simp

lemma shared_pass2:
  "snd (findAndProcessPrices (fst (findAndProcessPrices sharedExample))) = [Examined 5, Examined 3]"
  by code_simp

lemma shared_walk:
  "potentialPriceElements sharedExample = [] @ 4 # [5]"
  "\<not> hasAttribute (fst (forEach sharedExample [])) 4"
  "walk (fst (forEach sharedExample [])) 4 8 (Some 4) =
     ([4, 3], Found \<lparr>container = 3, elPrice = 4, priceKr = Finite False 10,
                       weightValue = Finite False 500, weightUnit = ''g''\<rparr>)"
  "\<not> hasAttribute sharedExample 3"
  "hasAttribute (fst (findAndProcessPrices sharedExample)) 3"
  by code_simp+

lemma deep4:
  "list_all (\<lambda>c. \<not> hasAttribute deepExample c \<and> tryContainer deepExample 11 c = None) [11, 10, 9, 8, 7, 6, 5, 4]"
  "list_all (\<lambda>c. weightMatches deepExample c = []) [11, 10, 9, 8, 7, 6, 5, 4]"
  by code_simp+

lemma leaf2:
  "potentialPriceElements leafExample = [4]"
  "matches PRICE_REGEX (elementText leafExample 3)"
  "parentElement leafExample 4 = Some 3"
  "lookup leafExample 4 =
     Some (Element 4 ''P'' [] False [TextNode ''99 kr '', Element 5 ''B'' [] False [TextNode ''offer'']])"
  "querySelectorAll (Element 4 ''P'' [] False [TextNode ''99 kr '', Element 5 ''B'' [] False [TextNode ''offer'']])
     = [Element 5 ''B'' [] False [TextNode ''offer'']]"
  by code_simp+

lemma simple_step:
  "snd (processPriceElement simpleExample 4) =
     [Examined 4, Examined 3, MarkedContainer 3,
      InjectorCalled \<lparr>container = 3, elPrice = 4, priceKr = Finite False 99,
                       weightValue = Finite False 500, weightUnit = ''g''\<rparr>,
      Injected 4 ''~198.00 / kg'']"
  by code_simp

lemma zero_pass:
  "findAndProcessPrices zeroExample = (zeroExample, [Examined 4, Examined 3, Examined 2, Examined 1])"
  "regexMatch WEIGHT_REGEX ''0 g'' = Some (''0'', ''g'')"
  "cleanNumber ''0'' = Finite False 0"
  by code_simp+

lemma simple_inject:
  "Injected 4 ''~198.00 / kg''
     \<in> set (snd (processProductBlock (setAttribute 3 simpleExample)
          \<lparr>container = 3, elPrice = 4, priceKr = Finite False 99,
            weightValue = Finite False 500, weightUnit = ''g''\<rparr>))"
  "filter (isInjectionAt 4)
     (snd (processProductBlock (fst (findAndProcessPrices simpleExample))
          \<lparr>container = 3, elPrice = 4, priceKr = Finite False 99,
            weightValue = Finite False 500, weightUnit = ''g''\<rparr>)) = []"
  "freshId (setAttribute 4 (setAttribute 3 simpleExample)) = 6"
  "setAttribute 4 (fst (findAndProcessPrices simpleExample)) = fst (findAndProcessPrices simpleExample)"
  by code_simp+

lemma simple_with:
  "snd (passesWith [insertAfter 5 (Element 9 ''SPAN'' [] False [TextNode ''2 kr'']), (\<lambda>d. d)] simpleExample) =
     [Examined 4, Examined 3, MarkedContainer 3,
      InjectorCalled \<lparr>container = 3, elPrice = 4, priceKr = Finite False 99,
                       weightValue = Finite False 500, weightUnit = ''g''\<rparr>,
      Injected 4 ''~198.00 / kg'', Examined 9, Examined 3]"
  by code_simp

section \<open>The patterns: a match survives in a longer text\<close>

lemma firstSome_eq_None: "firstSome f xs = None \<longleftrightarrow> (\<forall>x \<in> set xs. f x = None)"
  by (induction xs) (auto split: option.splits)

lemma unitGroup_eq_None: "unitGroup toks z = None \<longleftrightarrow> (\<forall>t \<in> set toks. \<not> literalCI t z)"
  by (induction toks) auto

lemma matchAt_eq_None:
  "matchAt toks s = None \<longleftrightarrow>
     (\<forall>nr \<in> set (numberGroup s). \<forall>z \<in> set (spacesStar (snd nr)). \<forall>t \<in> set toks. \<not> literalCI t z)"
  by (simp add: matchAt_def firstSome_eq_None unitGroup_eq_None)

lemma in_digitsPlus:
  "lr \<in> set (digitsPlus s) \<longleftrightarrow>
     (\<exists>k. 1 \<le> k \<and> k \<le> length (takeWhile isDigit s) \<and> lr = (take k s, drop k s))"
  by (auto simp: digitsPlus_def)

lemma in_spacesStar:
  "z \<in> set (spacesStar s) \<longleftrightarrow> (\<exists>k. k \<le> length (takeWhile isSpace s) \<and> z = drop k s)"
  by (auto simp: spacesStar_def atLeastLessThanSuc_atLeastAtMost simp del: upt_Suc)

lemma length_takeWhile_append: "length (takeWhile P s) \<le> length (takeWhile P (s @ b))"
  by (induction s) auto

lemma digitsPlus_append:
  assumes "(l, r) \<in> set (digitsPlus s)"
  shows "(l, r @ b) \<in> set (digitsPlus (s @ b))"
proof -
  from assms obtain k where k: "1 \<le> k" "k \<le> length (takeWhile isDigit s)"
    and lr: "l = take k s" "r = drop k s"
    by (auto simp: in_digitsPlus)
  have ks: "k \<le> length s" using k(2) length_takeWhile_le [of isDigit s] by linarith
  have "k \<le> length (takeWhile isDigit (s @ b))"
    using k(2) length_takeWhile_append [of isDigit s b] by linarith
  moreover have "take k (s @ b) = l" "drop k (s @ b) = r @ b" using ks lr by simp_all
  ultimately show ?thesis using k(1) by (auto simp: in_digitsPlus)
qed

lemma spacesStar_append:
  assumes "z \<in> set (spacesStar s)"
  shows "z @ b \<in> set (spacesStar (s @ b))"
proof -
  from assms obtain k where k: "k \<le> length (takeWhile isSpace s)" and z: "z = drop k s"
    by (auto simp: in_spacesStar)
  have ks: "k \<le> length s" using k length_takeWhile_le [of isSpace s] by linarith
  have "k \<le> length (takeWhile isSpace (s @ b))"
    using k length_takeWhile_append [of isSpace s b] by linarith
  moreover have "drop k (s @ b) = z @ b" using ks z by simp
  ultimately show ?thesis by (auto simp: in_spacesStar)
qed

lemma fraction_append:
  assumes "(l, r) \<in> set (fraction (a, x))"
  shows "(l, r @ b) \<in> set (fraction (a, x @ b))"
proof (cases x)
  case Nil
  with assms show ?thesis by (simp add: fraction_def)
next
  case (Cons c x')
  with assms have sep: "c = CHR ''.'' \<or> c = CHR '',''"
    by (auto simp: fraction_def split: if_splits)
  with assms Cons obtain l' where l': "(l', r) \<in> set (digitsPlus x')" "l = a @ c # l'"
    by (auto simp: fraction_def)
  have "(l', r @ b) \<in> set (digitsPlus (x' @ b))" using l'(1) by (rule digitsPlus_append)
  then show ?thesis using sep Cons l'(2) by (force simp: fraction_def)
qed

lemma numberGroup_append:
  assumes "(l, r) \<in> set (numberGroup s)"
  shows "(l, r @ b) \<in> set (numberGroup (s @ b))"
proof -
  from assms consider (frac) a x where "(a, x) \<in> set (digitsPlus s)" "(l, r) \<in> set (fraction (a, x))"
    | (plain) "(l, r) \<in> set (digitsPlus s)"
    by (auto simp: numberGroup_def)
  then show ?thesis
  proof cases
    case frac
    have "(a, x @ b) \<in> set (digitsPlus (s @ b))" using frac(1) by (rule digitsPlus_append)
    moreover have "(l, r @ b) \<in> set (fraction (a, x @ b))" using frac(2) by (rule fraction_append)
    ultimately show ?thesis by (auto simp: numberGroup_def)
  next
    case plain
    then show ?thesis by (auto simp: numberGroup_def dest: digitsPlus_append)
  qed
qed

lemma literalCI_append: "literalCI t z \<Longrightarrow> literalCI t (z @ b)"
  by (simp add: literalCI_def)

lemma matchAt_append:
  assumes "matchAt toks s \<noteq> None"
  shows "matchAt toks (s @ b) \<noteq> None"
proof -
  from assms obtain l r z t where m: "(l, r) \<in> set (numberGroup s)" "z \<in> set (spacesStar r)"
      "t \<in> set toks" "literalCI t z"
    by (auto simp: matchAt_eq_None)
  have ng: "(l, r @ b) \<in> set (numberGroup (s @ b))" using m(1) by (rule numberGroup_append)
  have sp: "z @ b \<in> set (spacesStar (r @ b))" using m(2) by (rule spacesStar_append)
  have lit: "literalCI t (z @ b)" using m(4) by (rule literalCI_append)
  have "\<exists>z' \<in> set (spacesStar (snd (l, r @ b))). \<exists>t \<in> set toks. literalCI t z'"
    using sp lit m(3) by auto
  then have "\<exists>nr \<in> set (numberGroup (s @ b)). \<exists>z' \<in> set (spacesStar (snd nr)).
      \<exists>t \<in> set toks. literalCI t z'"
    using ng by blast
  then show ?thesis by (simp add: matchAt_eq_None)
qed

lemma matchAt_Nil: "matchAt toks [] = None"
  by (simp add: matchAt_def numberGroup_def digitsPlus_def)

lemma matches_iff: "matches toks s \<longleftrightarrow> (\<exists>a r. s = a @ r \<and> matchAt toks r \<noteq> None)"
proof (induction s)
  case Nil
  then show ?case by (simp add: matches_def matchAt_Nil)
next
  case (Cons c s)
  show ?case
  proof (cases "matchAt toks (c # s)")
    case (Some m)
    then have "matches toks (c # s)" by (simp add: matches_def)
    moreover have "c # s = [] @ (c # s) \<and> matchAt toks (c # s) \<noteq> None" using Some by simp
    ultimately show ?thesis by blast
  next
    case None
    then have a: "matches toks (c # s) \<longleftrightarrow> matches toks s" by (simp add: matches_def)
    have "(\<exists>a r. c # s = a @ r \<and> matchAt toks r \<noteq> None) \<longleftrightarrow> (\<exists>a r. s = a @ r \<and> matchAt toks r \<noteq> None)"
    proof
      assume "\<exists>a r. c # s = a @ r \<and> matchAt toks r \<noteq> None"
      then obtain a r where ar: "c # s = a @ r" "matchAt toks r \<noteq> None" by blast
      with None have "a \<noteq> []" by auto
      then obtain a' where "a = c # a'" "s = a' @ r" using ar(1) by (cases a) auto
      then show "\<exists>a r. s = a @ r \<and> matchAt toks r \<noteq> None" using ar(2) by blast
    next
      assume "\<exists>a r. s = a @ r \<and> matchAt toks r \<noteq> None"
      then obtain a r where "s = a @ r" "matchAt toks r \<noteq> None" by blast
      then have "c # s = (c # a) @ r \<and> matchAt toks r \<noteq> None" by simp
      then show "\<exists>a r. c # s = a @ r \<and> matchAt toks r \<noteq> None" by blast
    qed
    then show ?thesis using a Cons.IH by simp
  qed
qed

lemma matches_substring:
  assumes "matches toks s"
  shows "matches toks (a @ s @ b)"
proof -
  from assms obtain a' r where "s = a' @ r" "matchAt toks r \<noteq> None" by (auto simp: matches_iff)
  then have "a @ s @ b = (a @ a') @ (r @ b) \<and> matchAt toks (r @ b) \<noteq> None"
    by (simp add: matchAt_append)
  then show ?thesis unfolding matches_iff by blast
qed

section \<open>The text of a descendant lies within the text of its ancestors\<close>

lemma textContent_descendant:
  "d \<in> set (elements n) \<Longrightarrow> \<exists>a b. textContent n = a @ textContent d @ b"
proof (induction n)
  case (TextNode s)
  then show ?case by simp
next
  case (Element i t c p ks)
  show ?case
  proof (cases "d = Element i t c p ks")
    case True
    then have "textContent (Element i t c p ks) = [] @ textContent d @ []" by simp
    then show ?thesis by blast
  next
    case False
    with Element.prems obtain k where k: "k \<in> set ks" "d \<in> set (elements k)" by auto
    then obtain a b where ab: "textContent k = a @ textContent d @ b" using Element.IH by blast
    from k(1) obtain ks1 ks2 where "ks = ks1 @ k # ks2" by (auto dest: split_list)
    then have "textContent (Element i t c p ks) =
        (concat (map textContent ks1) @ a) @ textContent d @ (b @ concat (map textContent ks2))"
      using ab by simp
    then show ?thesis by blast
  qed
qed

lemma elements_are_elements: "d \<in> set (elements n) \<Longrightarrow> isElement d"
proof (induction n)
  case (TextNode s)
  then show ?case by simp
next
  case (Element i t c p ks)
  then show ?case by auto
qed

lemma descendant_within_child:
  assumes "d \<in> set (querySelectorAll el)"
  shows "\<exists>child \<in> set (children el). \<exists>a b. textContent child = a @ textContent d @ b"
proof -
  from assms obtain k where k: "k \<in> set (childNodes el)" "d \<in> set (elements k)"
    by (auto simp: querySelectorAll_def)
  from k(2) have "isElement k" by (cases k) auto
  then have "k \<in> set (children el)" using k(1) by (simp add: children_def)
  then show ?thesis using textContent_descendant [OF k(2)] by blast
qed

section \<open>C8: leaf preference\<close>

text \<open>
  C8: an element that passes the filter of step 1 has a text that matches the price
  pattern, and no descendant element of it has a text that matches the price pattern. So
  when an element and one of its descendants both contain a price, the element is not a
  candidate. (The source tests the children only; a price in a deeper descendant is a
  price in the text of the child that holds it.)
\<close>

theorem leaf_preference:
  assumes "isPotentialPriceElement doc el"
  shows "matches PRICE_REGEX (textContent el)
         \<and> (\<forall>d \<in> set (querySelectorAll el). \<not> matches PRICE_REGEX (textContent d))"
proof -
  from assms have m: "matches PRICE_REGEX (textContent el)"
    and leaf: "\<forall>child \<in> set (children el). \<not> matches PRICE_REGEX (textContent child)"
    by (auto simp: isPotentialPriceElement_def list_ex_iff split: if_splits)
  have "\<not> matches PRICE_REGEX (textContent d)" if "d \<in> set (querySelectorAll el)" for d
  proof
    assume md: "matches PRICE_REGEX (textContent d)"
    from descendant_within_child [OF that] obtain child a b
      where c: "child \<in> set (children el)" "textContent child = a @ textContent d @ b" by blast
    from matches_substring [OF md, of a b] c(2) have "matches PRICE_REGEX (textContent child)" by simp
    with leaf c(1) show False by blast
  qed
  with m show ?thesis by blast
qed

theorem leaf_preference_witness:
  "isPotentialPriceElement leafExample
     (Element 4 ''P'' [] False [TextNode ''99 kr '', Element 5 ''B'' [] False [TextNode ''offer'']])
   \<and> matches PRICE_REGEX
        (textContent (Element 4 ''P'' [] False [TextNode ''99 kr '', Element 5 ''B'' [] False [TextNode ''offer'']]))
   \<and> querySelectorAll (Element 4 ''P'' [] False [TextNode ''99 kr '', Element 5 ''B'' [] False [TextNode ''offer'']])
       = [Element 5 ''B'' [] False [TextNode ''offer'']]
   \<and> \<not> matches PRICE_REGEX (textContent (Element 5 ''B'' [] False [TextNode ''offer'']))
   \<and> parentElement leafExample 4 = Some 3
   \<and> matches PRICE_REGEX (elementText leafExample 3)
   \<and> potentialPriceElements leafExample = [4]"
proof -
  let ?el = "Element 4 ''P'' [] False [TextNode ''99 kr '', Element 5 ''B'' [] False [TextNode ''offer'']]"
  from leaf_preference [OF leaf1]
  have m: "matches PRICE_REGEX (textContent ?el)"
    and d: "\<forall>d \<in> set (querySelectorAll ?el). \<not> matches PRICE_REGEX (textContent d)"
    by blast+
  from d have n: "\<not> matches PRICE_REGEX (textContent (Element 5 ''B'' [] False [TextNode ''offer'']))"
    unfolding leaf2(5) by simp
  show ?thesis using leaf1 m n leaf2 by blast
qed

section \<open>The upward walk\<close>

lemma tryContainer_no_weight: "weightMatches doc c = [] \<Longrightarrow> tryContainer doc p c = None"
  by (simp add: tryContainer_def)

lemma tryContainer_Some:
  assumes "tryContainer doc p c = Some b"
  shows "container b = c \<and> elPrice b = p \<and> weightMatches doc c \<noteq> []
         \<and> \<not> isNaN (priceKr b) \<and> \<not> isNaN (weightValue b)
         \<and> greaterZero (priceKr b) \<and> greaterZero (weightValue b)"
  using assms
  by (auto simp: tryContainer_def split: list.splits option.splits if_splits)

lemma length_ancestorChain: "length (ancestorChain doc n cur) \<le> n"
  by (induction doc n cur rule: ancestorChain.induct) auto

lemma walk_prefix: "\<exists>rest. ancestorChain doc n cur = fst (walk doc p n cur) @ rest"
  by (induction doc p n cur rule: walk.induct) (auto split: option.splits prod.splits)

lemma walk_no_weight:
  "\<forall>c \<in> set (ancestorChain doc n cur). weightMatches doc c = [] \<Longrightarrow> snd (walk doc p n cur) \<noteq> Found b"
  by (induction doc p n cur rule: walk.induct)
     (auto simp: tryContainer_no_weight split: prod.splits)

lemma walk_Found:
  "walk doc p n cur = (vs, Found b) \<Longrightarrow>
     vs \<noteq> [] \<and> \<not> hasAttribute doc (last vs) \<and> tryContainer doc p (last vs) = Some b"
proof (induction doc p n cur arbitrary: vs rule: walk.induct)
  case (1 doc p cur)
  then show ?case by simp
next
  case (2 doc p n)
  then show ?case by simp
next
  case (3 doc p n c)
  show ?case
  proof (cases "hasAttribute doc c")
    case True
    with 3(2) show ?thesis by simp
  next
    case False
    show ?thesis
    proof (cases "tryContainer doc p c")
      case (Some b')
      with False 3(2) show ?thesis by auto
    next
      case None
      obtain vs' r where w: "walk doc p n (parentElement doc c) = (vs', r)" by (cases "walk doc p n (parentElement doc c)")
      with False None 3(2) have eq: "vs = c # vs'" "r = Found b" by auto
      from 3(1) [OF False None] w eq(2)
      have "vs' \<noteq> [] \<and> \<not> hasAttribute doc (last vs') \<and> tryContainer doc p (last vs') = Some b" by simp
      then show ?thesis using eq(1) by simp
    qed
  qed
qed

lemma walk_abort:
  "ancestorChain doc n cur = pre @ c # post \<Longrightarrow> hasAttribute doc c \<Longrightarrow>
   \<forall>a \<in> set pre. \<not> hasAttribute doc a \<and> tryContainer doc p a = None \<Longrightarrow>
   walk doc p n cur = (pre @ [c], Aborted)"
proof (induction pre arbitrary: n cur)
  case Nil
  then obtain m where "n = Suc m" "cur = Some c"
    by (cases n; cases cur) auto
  with Nil show ?case by simp
next
  case (Cons a pre)
  from Cons.prems(1) obtain m where n: "n = Suc m" "cur = Some a"
    and rest: "ancestorChain doc m (parentElement doc a) = pre @ c # post"
    by (cases n; cases cur) auto
  have "walk doc p m (parentElement doc a) = (pre @ [c], Aborted)"
    using Cons.IH [OF rest Cons.prems(2)] Cons.prems(3) by simp
  then show ?case using n Cons.prems(3) by simp
qed

lemma examined_map: "examined (map Examined vs @ es) = vs @ examined es"
  by (induction vs) auto

lemma processProductBlock_events:
  "snd (processProductBlock d b) = [Warned (elPrice b)] \<or> snd (processProductBlock d b) = []
   \<or> snd (processProductBlock d b) =
        [Injected (elPrice b) (calculateAndFormatUnit (priceKr b) (weightValue b) (weightUnit b))]"
  by (simp add: processProductBlock_def Let_def)

lemma examined_processProductBlock: "examined (snd (processProductBlock d b)) = []"
  using processProductBlock_events [of d b] by auto

text \<open>The three ways in which the body of the loop over the price elements ends.\<close>

lemma processPriceElement_cases:
  assumes "processPriceElement doc p = (doc', evs)"
  obtains (skipped) "hasAttribute doc p" "doc' = doc" "evs = []"
  | (unmatched) vs r where "\<not> hasAttribute doc p" "walk doc p 8 (Some p) = (vs, r)"
      "\<forall>b. r \<noteq> Found b" "doc' = doc" "evs = map Examined vs"
  | (found) vs b tail where "\<not> hasAttribute doc p" "walk doc p 8 (Some p) = (vs, Found b)"
      "\<not> hasAttribute doc (container b)" "tryContainer doc p (container b) = Some b"
      "processProductBlock (setAttribute (container b) doc) b = (doc', tail)"
      "evs = map Examined vs @ MarkedContainer (container b) # InjectorCalled b # tail"
proof (cases "hasAttribute doc p")
  case True
  with assms have "doc' = doc" "evs = []" by (simp_all add: processPriceElement_def)
  with True show ?thesis by (rule skipped)
next
  case np: False
  obtain vs r where w: "walk doc p 8 (Some p) = (vs, r)" by (cases "walk doc p 8 (Some p)")
  show ?thesis
  proof (cases "\<exists>b. r = Found b")
    case True
    then obtain b where r: "r = Found b" by blast
    from walk_Found [OF w [unfolded r]] have f: "vs \<noteq> []" "\<not> hasAttribute doc (last vs)"
      "tryContainer doc p (last vs) = Some b" by simp_all
    from tryContainer_Some [OF f(3)] have c: "container b = last vs" by simp
    obtain d tail where ppb: "processProductBlock (setAttribute (container b) doc) b = (d, tail)"
      by (cases "processProductBlock (setAttribute (container b) doc) b")
    from assms np w r f(2) c ppb
    have "doc' = d" "evs = map Examined vs @ MarkedContainer (container b) # InjectorCalled b # tail"
      by (simp_all add: processPriceElement_def)
    then have e: "doc' = d" "evs = map Examined vs @ MarkedContainer (container b) # InjectorCalled b # tail"
      by simp_all
    have f2: "\<not> hasAttribute doc (container b)" using f(2) c by simp
    have f3: "tryContainer doc p (container b) = Some b" using f(3) c by simp
    have w': "walk doc p 8 (Some p) = (vs, Found b)" using w r by simp
    have ppb': "processProductBlock (setAttribute (container b) doc) b = (doc', tail)"
      using ppb e(1) by simp
    show ?thesis by (rule found [OF np w' f2 f3 ppb' e(2)])
  next
    case nf: False
    then have nf': "\<forall>b. r \<noteq> Found b" by simp
    have e: "doc' = doc" "evs = map Examined vs"
      using assms np w nf
      by (auto simp: processPriceElement_def split: walkResult.splits)
    show ?thesis by (rule unmatched [OF np w nf' e])
  qed
qed

lemma walk_all:
  "\<forall>c \<in> set (ancestorChain doc n cur). \<not> hasAttribute doc c \<and> tryContainer doc p c = None \<Longrightarrow>
   walk doc p n cur = (ancestorChain doc n cur, NotFound)"
  by (induction doc p n cur rule: walk.induct) auto

lemma ancestorChain_head: "ancestorChain doc 8 (Some p) = p # ancestorChain doc 7 (parentElement doc p)"
  by (simp add: eval_nat_numeral)

section \<open>C4: the bounded walk\<close>

text \<open>
  C4: for a price element, the containers that the walk examines are the first ones of
  the chain made of the element and its ancestors, cut after 8 (the element and 7
  ancestors at most); when no container of that chain bears the marker or yields a
  validated pair, the walk examines the whole chain and that is all that happens; and if
  no descendant of any container of the chain has a text that matches the weight pattern,
  the tree stays as it is and nothing happens but the examinations: no marker, no call of
  the injector, no insertion, no warning.
\<close>

theorem bounded_walk:
  "(\<exists>rest. ancestorChain doc 8 (Some p) = examined (snd (processPriceElement doc p)) @ rest)
   \<and> length (ancestorChain doc 8 (Some p)) \<le> 8
   \<and> ((\<forall>c \<in> set (ancestorChain doc 8 (Some p)).
          \<not> hasAttribute doc c \<and> tryContainer doc p c = None) \<longrightarrow>
        processPriceElement doc p = (doc, map Examined (ancestorChain doc 8 (Some p))))
   \<and> ((\<forall>c \<in> set (ancestorChain doc 8 (Some p)). weightMatches doc c = []) \<longrightarrow>
        fst (processPriceElement doc p) = doc
        \<and> snd (processPriceElement doc p) = map Examined (examined (snd (processPriceElement doc p))))"
proof -
  obtain doc' evs where step: "processPriceElement doc p = (doc', evs)"
    by (cases "processPriceElement doc p")
  have pre: "\<exists>rest. ancestorChain doc 8 (Some p) = examined evs @ rest"
    using step
  proof (cases rule: processPriceElement_cases)
    case skipped
    then show ?thesis by simp
  next
    case (unmatched vs r)
    with walk_prefix [of doc 8 "Some p" p] show ?thesis
      using examined_map [of vs "[]"] by simp
  next
    case (found vs b tail)
    have "examined tail = []" using examined_processProductBlock [of "setAttribute (container b) doc" b] found(5) by simp
    with found walk_prefix [of doc 8 "Some p" p] show ?thesis
      by (simp add: examined_map)
  qed
  have whole: "processPriceElement doc p = (doc, map Examined (ancestorChain doc 8 (Some p)))"
    if h: "\<forall>c \<in> set (ancestorChain doc 8 (Some p)). \<not> hasAttribute doc c \<and> tryContainer doc p c = None"
  proof -
    from h have np: "\<not> hasAttribute doc p" unfolding ancestorChain_head by simp
    have "walk doc p 8 (Some p) = (ancestorChain doc 8 (Some p), NotFound)"
      using h by (rule walk_all)
    with np show ?thesis by (simp add: processPriceElement_def)
  qed
  have nw: "doc' = doc \<and> evs = map Examined (examined evs)"
    if h: "\<forall>c \<in> set (ancestorChain doc 8 (Some p)). weightMatches doc c = []"
    using step
  proof (cases rule: processPriceElement_cases)
    case skipped
    then show ?thesis by simp
  next
    case (unmatched vs r)
    then show ?thesis using examined_map [of vs "[]"] by simp
  next
    case (found vs b tail)
    with walk_no_weight [OF h, of p b] show ?thesis by simp
  qed
  show ?thesis using pre whole nw length_ancestorChain [of doc 8 "Some p"] step by simp
qed

text \<open>
  In \<open>deepExample\<close> the weight is a descendant of the eighth ancestor of the price
  element only, which the walk does not reach.
\<close>

theorem bounded_walk_witness:
  "ancestorChain deepExample 8 (Some 11) = [11, 10, 9, 8, 7, 6, 5, 4]
   \<and> parentElement deepExample 4 = Some 3
   \<and> weightMatches deepExample 3 = [Element 12 ''SPAN'' [] False [TextNode ''500 g'']]
   \<and> list_all (\<lambda>c. \<not> hasAttribute deepExample c \<and> tryContainer deepExample 11 c = None)
        [11, 10, 9, 8, 7, 6, 5, 4]
   \<and> list_all (\<lambda>c. weightMatches deepExample c = []) [11, 10, 9, 8, 7, 6, 5, 4]
   \<and> processPriceElement deepExample 11 =
       (deepExample, map Examined [11, 10, 9, 8, 7, 6, 5, 4])"
proof -
  have h: "\<forall>c \<in> set (ancestorChain deepExample 8 (Some 11)).
             \<not> hasAttribute deepExample c \<and> tryContainer deepExample 11 c = None"
    unfolding deep1 using deep4(1) by (simp only: list_all_iff)
  have "processPriceElement deepExample 11 =
          (deepExample, map Examined (ancestorChain deepExample 8 (Some 11)))"
    using bounded_walk [of deepExample 11] h by blast
  then have r: "processPriceElement deepExample 11 =
          (deepExample, map Examined [11, 10, 9, 8, 7, 6, 5, 4])"
    unfolding deep1 .
  have par: "parentElement deepExample 4 = Some 3" by code_simp
  show ?thesis using deep1 par deep3 deep4 r by blast
qed

section \<open>C5: abort on a processed ancestor\<close>

text \<open>
  C5: when the walk of a price element reaches, within its 8 rounds, a container that
  bears the marker (the containers before it bear none and yield no validated pair), the
  processing of the price element ends there: the tree stays as it is, and nothing
  happens but the examinations up to that container; no further ancestor is examined, no
  block is built, the injector is not called, nothing is inserted and nothing is warned.
  When the price element itself bears the marker, not even the walk starts.
\<close>

theorem abort_on_processed_ancestor:
  assumes "ancestorChain doc 8 (Some p) = pre @ c # post"
    and "hasAttribute doc c"
    and "\<forall>a \<in> set pre. \<not> hasAttribute doc a \<and> tryContainer doc p a = None"
  shows "processPriceElement doc p = (doc, if pre = [] then [] else map Examined (pre @ [c]))"
proof (cases pre)
  case Nil
  with assms(1) have "c = p" by (simp add: eval_nat_numeral)
  with assms(2) Nil show ?thesis by (simp add: processPriceElement_def)
next
  case (Cons a pre')
  with assms(1) have "a = p" by (simp add: eval_nat_numeral)
  with assms(3) Cons have np: "\<not> hasAttribute doc p" by simp
  have "walk doc p 8 (Some p) = (pre @ [c], Aborted)" using assms by (rule walk_abort)
  with np Cons show ?thesis by (simp add: processPriceElement_def)
qed

theorem abort_on_processed_ancestor_witness:
  "ancestorChain markedExample 8 (Some 5) = [5] @ 3 # [2, 1]
   \<and> hasAttribute markedExample 3
   \<and> \<not> hasAttribute markedExample 5
   \<and> tryContainer markedExample 5 5 = None
   \<and> processPriceElement markedExample 5 = (markedExample, [Examined 5, Examined 3])"
proof -
  have "processPriceElement markedExample 5 =
          (markedExample, if [5] = ([]::nat list) then [] else map Examined ([5] @ [3]))"
    using marked1 marked2 marked3 by (rule abort_on_processed_ancestor)
  then have r: "processPriceElement markedExample 5 = (markedExample, [Examined 5, Examined 3])"
    by simp
  from marked3 have n: "\<not> hasAttribute markedExample 5" "tryContainer markedExample 5 5 = None"
    by simp_all
  show ?thesis using marked1 marked2 n r by blast
qed

section \<open>Markers in the tree\<close>

lemma elemId_setAttribute: "elemId (setAttribute i n) = elemId n"
  by (cases n) auto

lemma elements_setAttribute: "elements (setAttribute i n) = map (setAttribute i) (elements n)"
proof (induction n)
  case (TextNode s)
  then show ?case by simp
next
  case (Element j t c p ks)
  then have h: "map (\<lambda>k. elements (setAttribute i k)) ks = map (\<lambda>k. map (setAttribute i) (elements k)) ks"
    by simp
  have "concat (map elements (map (setAttribute i) ks)) = concat (map (\<lambda>k. elements (setAttribute i k)) ks)"
    by (simp add: comp_def)
  also have "\<dots> = concat (map (\<lambda>k. map (setAttribute i) (elements k)) ks)"
    using h by (rule arg_cong)
  also have "\<dots> = map (setAttribute i) (concat (map elements ks))"
    by (simp add: map_concat comp_def)
  finally show ?case by simp
qed

lemma find_setAttribute:
  "find (\<lambda>e. elemId e = j) (map (setAttribute i) xs) = map_option (setAttribute i) (find (\<lambda>e. elemId e = j) xs)"
  by (induction xs) (auto simp: elemId_setAttribute)

lemma lookup_setAttribute: "lookup (setAttribute i d) j = map_option (setAttribute i) (lookup d j)"
  by (simp add: lookup_def elements_setAttribute find_setAttribute)

lemma lookup_Some: "lookup d j = Some e \<Longrightarrow> isElement e \<and> elemId e = j \<and> e \<in> set (elements d)"
  by (auto simp: lookup_def find_Some_iff dest: elements_are_elements nth_mem)

lemma lookup_None_iff: "lookup d j = None \<longleftrightarrow> (\<forall>e \<in> set (elements d). elemId e \<noteq> j)"
  by (auto simp: lookup_def find_None_iff)

lemma isProcessed_setAttribute:
  "isElement e \<Longrightarrow> isProcessed (setAttribute i e) = (isProcessed e \<or> i = elemId e)"
  by (cases e) auto

lemma hasAttribute_setAttribute:
  "hasAttribute (setAttribute i d) j = (hasAttribute d j \<or> (i = j \<and> lookup d j \<noteq> None))"
proof (cases "lookup d j")
  case None
  then show ?thesis by (simp add: hasAttribute_def lookup_setAttribute)
next
  case (Some e)
  then have "isElement e" "elemId e = j" using lookup_Some by blast+
  with Some show ?thesis
    by (auto simp: hasAttribute_def lookup_setAttribute isProcessed_setAttribute)
qed

lemma flag_append:
  "map_option isProcessed (find P (xs @ ys)) =
     (case map_option isProcessed (find P xs) of
        None \<Rightarrow> map_option isProcessed (find P ys)
      | Some v \<Rightarrow> Some v)"
  by (induction xs) auto

lemma flags_insertAfter_children:
  assumes "\<And>k. k \<in> set ks \<Longrightarrow>
      map_option isProcessed (find P (elements (insertAfter i new k))) = map_option isProcessed (find P (elements k))"
    and "find P (elements new) = None"
  shows "map_option isProcessed
           (find P (concat (map elements
              (concat (map (\<lambda>k. if isElem i k then [k, new] else [insertAfter i new k]) ks)))))
         = map_option isProcessed (find P (concat (map elements ks)))"
  using assms(1)
proof (induction ks)
  case Nil
  then show ?case by simp
next
  case (Cons k ks)
  have rest: "map_option isProcessed
           (find P (concat (map elements
              (concat (map (\<lambda>k. if isElem i k then [k, new] else [insertAfter i new k]) ks)))))
         = map_option isProcessed (find P (concat (map elements ks)))"
    using Cons by simp
  have k: "map_option isProcessed (find P (elements (insertAfter i new k))) = map_option isProcessed (find P (elements k))"
    using Cons.prems by simp
  show ?case
  proof (cases "isElem i k")
    case True
    then show ?thesis using rest assms(2)
      by (simp add: flag_append split: option.splits)
  next
    case False
    then show ?thesis using rest k
      by (simp add: flag_append split: option.splits)
  qed
qed

lemma flags_insertAfter:
  assumes "find (\<lambda>e. elemId e = j) (elements new) = None"
  shows "map_option isProcessed (find (\<lambda>e. elemId e = j) (elements (insertAfter i new n)))
         = map_option isProcessed (find (\<lambda>e. elemId e = j) (elements n))"
proof (induction n)
  case (TextNode s)
  then show ?case by simp
next
  case (Element j0 t c p ks)
  show ?case
  proof (cases "j0 = j")
    case True
    then show ?thesis by simp
  next
    case False
    then show ?thesis
      using flags_insertAfter_children [of ks "\<lambda>e. elemId e = j" i new, OF Element.IH assms]
      by simp
  qed
qed

lemma hasAttribute_insertAfter:
  assumes "find (\<lambda>e. elemId e = j) (elements new) = None"
  shows "hasAttribute (insertAfter i new d) j = hasAttribute d j"
proof -
  have c: "hasAttribute x j = (map_option isProcessed (find (\<lambda>e. elemId e = j) (elements x)) = Some True)" for x
    by (simp add: hasAttribute_def lookup_def split: option.splits)
  show ?thesis unfolding c by (simp only: flags_insertAfter [OF assms])
qed

lemma fold_max_ge: "(a::nat) \<le> fold max ys a \<and> (\<forall>y \<in> set ys. y \<le> fold max ys a)"
proof (induction ys arbitrary: a)
  case Nil
  then show ?case by simp
next
  case (Cons z ys)
  from Cons [of "max z a"] have "max z a \<le> fold max ys (max z a)"
    and "\<forall>y \<in> set ys. y \<le> fold max ys (max z a)" by simp_all
  then show ?case by auto
qed

lemma lookup_freshId: "lookup d (freshId d) = None"
proof -
  have "elemId e < freshId d" if "e \<in> set (elements d)" for e
  proof -
    from that have "elemId e \<in> set (map elemId (elements d))" by simp
    then have "elemId e \<le> fold max (map elemId (elements d)) 0" using fold_max_ge by blast
    then show ?thesis by (simp add: freshId_def)
  qed
  then show ?thesis by (force simp: lookup_None_iff)
qed

lemma not_hasAttribute_freshId: "\<not> hasAttribute d (freshId d)"
  by (simp add: hasAttribute_def lookup_freshId)

lemma hasAttribute_in_tree: "hasAttribute d j \<Longrightarrow> lookup d j \<noteq> None"
  by (cases "lookup d j") (simp_all add: hasAttribute_def)

lemma firstJust_Some: "firstJust rs = Some r \<Longrightarrow> Some r \<in> set rs"
  by (induction rs rule: firstJust.induct) auto

lemma element_in_elements: "isElement k \<Longrightarrow> k \<in> set (elements k)"
  by (cases k) auto

lemma parentElement_in_tree: "parentElement d i = Some q \<Longrightarrow> lookup d i \<noteq> None"
proof (induction d)
  case (TextNode s)
  then show ?case by simp
next
  case (Element j t c p ks)
  show ?case
  proof (cases "list_ex (isElem i) ks")
    case True
    then obtain k where k: "k \<in> set ks" "isElement k" "elemId k = i"
      by (auto simp: list_ex_iff isElem_def)
    then have "k \<in> set (elements (Element j t c p ks))" using element_in_elements by auto
    with k(3) show ?thesis by (auto simp: lookup_None_iff)
  next
    case False
    with Element.prems have "firstJust (map (\<lambda>k. parentElement k i) ks) = Some q" by simp
    then obtain k where k: "k \<in> set ks" "parentElement k i = Some q"
      by (auto dest!: firstJust_Some)
    then have "lookup k i \<noteq> None" using Element.IH by blast
    then obtain e where "e \<in> set (elements k)" "elemId e = i" by (auto simp: lookup_None_iff)
    with k(1) have "e \<in> set (elements (Element j t c p ks))" by auto
    with \<open>elemId e = i\<close> show ?thesis by (auto simp: lookup_None_iff)
  qed
qed

lemma find_annotation:
  "j \<noteq> f \<Longrightarrow> find (\<lambda>e. elemId e = j) (elements (annotation f t)) = None"
  by (simp add: annotation_def)

section \<open>What processProductBlock and the loop body do to the markers\<close>

lemma processProductBlock_mono:
  assumes "processProductBlock d0 b = (d', evs)" and "hasAttribute d0 j"
  shows "hasAttribute d' j"
proof -
  define d where "d = setAttribute (elPrice b) d0"
  have dj: "hasAttribute d j" using assms(2) by (simp add: d_def hasAttribute_setAttribute)
  then have "j \<noteq> freshId d" using not_hasAttribute_freshId [of d] by auto
  then have "hasAttribute (insertAfter (elPrice b) (annotation (freshId d) t) d) j" for t
    using dj by (simp add: hasAttribute_insertAfter find_annotation)
  then show ?thesis using assms(1) dj
    by (auto simp: processProductBlock_def Let_def d_def split: if_splits)
qed

lemma processProductBlock_injected:
  assumes "processProductBlock d0 b = (d', evs)" and "Injected q t \<in> set evs"
  shows "q = elPrice b \<and> hasAttribute d' q
         \<and> t = calculateAndFormatUnit (priceKr b) (weightValue b) (weightUnit b)
         \<and> evs = [Injected q t]"
proof -
  define d where "d = setAttribute (elPrice b) d0"
  from assms have br: "parentElement d (elPrice b) \<noteq> None"
    and res: "d' = insertAfter (elPrice b) (annotation (freshId d)
                 (calculateAndFormatUnit (priceKr b) (weightValue b) (weightUnit b))) d"
          "evs = [Injected (elPrice b) (calculateAndFormatUnit (priceKr b) (weightValue b) (weightUnit b))]"
    by (auto simp: processProductBlock_def Let_def d_def split: if_splits)
  from br have "lookup d (elPrice b) \<noteq> None" using parentElement_in_tree by blast
  then have "lookup d0 (elPrice b) \<noteq> None" by (simp add: d_def lookup_setAttribute)
  then have dp: "hasAttribute d (elPrice b)" by (simp add: d_def hasAttribute_setAttribute)
  then have "elPrice b \<noteq> freshId d" using not_hasAttribute_freshId [of d] by auto
  then have "hasAttribute d' (elPrice b)"
    using dp res(1) by (simp add: hasAttribute_insertAfter find_annotation)
  then show ?thesis using assms(2) res(2) by auto
qed

lemma weightMatches_in_tree: "weightMatches doc c \<noteq> [] \<Longrightarrow> lookup doc c \<noteq> None"
  by (cases "lookup doc c") (simp_all add: weightMatches_def)

lemma processPriceElement_mono:
  assumes "processPriceElement doc p = (doc', evs)" and "hasAttribute doc j"
  shows "hasAttribute doc' j"
  using assms(1)
proof (cases rule: processPriceElement_cases)
  case skipped
  with assms(2) show ?thesis by simp
next
  case (unmatched vs r)
  with assms(2) show ?thesis by simp
next
  case (found vs b tail)
  have "hasAttribute (setAttribute (container b) doc) j"
    using assms(2) by (simp add: hasAttribute_setAttribute)
  then show ?thesis using found(5) by (rule processProductBlock_mono [rotated])
qed

text \<open>When the loop body finds a block, its container bears the marker afterwards.\<close>

lemma found_container_marked:
  assumes "tryContainer doc p (container b) = Some b"
    and "processProductBlock (setAttribute (container b) doc) b = (doc', tail)"
  shows "hasAttribute doc' (container b)"
proof -
  from tryContainer_Some [OF assms(1)] have "lookup doc (container b) \<noteq> None"
    using weightMatches_in_tree by blast
  then have "hasAttribute (setAttribute (container b) doc) (container b)"
    by (simp add: hasAttribute_setAttribute)
  then show ?thesis using assms(2) by (rule processProductBlock_mono [rotated])
qed

section \<open>The inserted annotation is the next sibling of the price element\<close>

lemma isElem_insertAfter: "isElem i (insertAfter j new k) = isElem i k"
  by (cases k) (simp_all add: isElem_def)

lemma siblingsAfter_None_iff: "siblingsAfter i ks = None \<longleftrightarrow> \<not> list_ex (isElem i) ks"
  by (induction ks) auto

lemma siblingsAfter_insertAfter_Some:
  "siblingsAfter i ks = Some r \<Longrightarrow>
   \<exists>r'. siblingsAfter i (concat (map (\<lambda>k. if isElem i k then [k, new] else [insertAfter i new k]) ks))
          = Some (new # r')"
  by (induction ks) (auto simp: isElem_insertAfter split: if_splits)

lemma siblingsAfter_insertAfter_None:
  "siblingsAfter i ks = None \<Longrightarrow>
   concat (map (\<lambda>k. if isElem i k then [k, new] else [insertAfter i new k]) ks) = map (insertAfter i new) ks
   \<and> siblingsAfter i (map (insertAfter i new) ks) = None"
  by (induction ks) (auto simp: isElem_insertAfter split: if_splits)

lemma firstJust_None_iff: "firstJust rs = None \<longleftrightarrow> (\<forall>r \<in> set rs. r = None)"
  by (induction rs rule: firstJust.induct) auto

lemma firstJust_related:
  assumes "\<And>k. k \<in> set ks \<Longrightarrow> (f k = None \<longrightarrow> g k = None) \<and> (f k \<noteq> None \<longrightarrow> (\<exists>r. g k = Some (new # r)))"
  shows "(firstJust (map f ks) = None \<longrightarrow> firstJust (map g ks) = None)
         \<and> (firstJust (map f ks) \<noteq> None \<longrightarrow> (\<exists>r. firstJust (map g ks) = Some (new # r)))"
  using assms
proof (induction ks)
  case Nil
  then show ?case by simp
next
  case (Cons k ks)
  from Cons.prems [of k]
  have k: "(f k = None \<longrightarrow> g k = None) \<and> (f k \<noteq> None \<longrightarrow> (\<exists>r. g k = Some (new # r)))" by simp
  have rest: "(firstJust (map f ks) = None \<longrightarrow> firstJust (map g ks) = None)
         \<and> (firstJust (map f ks) \<noteq> None \<longrightarrow> (\<exists>r. firstJust (map g ks) = Some (new # r)))"
    using Cons by simp
  show ?case
  proof (cases "f k")
    case None
    with k have "g k = None" by simp
    with None rest show ?thesis by simp
  next
    case (Some a)
    with k obtain r where "g k = Some (new # r)" by auto
    with Some show ?thesis by simp
  qed
qed

lemma followingSiblings_insertAfter:
  "(followingSiblings d i = None \<longrightarrow> followingSiblings (insertAfter i new d) i = None)
   \<and> (followingSiblings d i \<noteq> None \<longrightarrow> (\<exists>r. followingSiblings (insertAfter i new d) i = Some (new # r)))"
proof (induction d)
  case (TextNode s)
  then show ?case by simp
next
  case (Element j t c p ks)
  show ?case
  proof (cases "siblingsAfter i ks")
    case (Some r)
    from siblingsAfter_insertAfter_Some [OF Some, of new] Some show ?thesis by auto
  next
    case None
    from siblingsAfter_insertAfter_None [OF None, of new]
    have eq: "concat (map (\<lambda>k. if isElem i k then [k, new] else [insertAfter i new k]) ks) = map (insertAfter i new) ks"
      and n: "siblingsAfter i (map (insertAfter i new) ks) = None" by simp_all
    have rel: "(firstJust (map (\<lambda>k. followingSiblings k i) ks) = None \<longrightarrow>
                 firstJust (map (\<lambda>k. followingSiblings (insertAfter i new k) i) ks) = None)
         \<and> (firstJust (map (\<lambda>k. followingSiblings k i) ks) \<noteq> None \<longrightarrow>
              (\<exists>r. firstJust (map (\<lambda>k. followingSiblings (insertAfter i new k) i) ks) = Some (new # r)))"
      by (rule firstJust_related) (rule Element.IH)
    have a: "followingSiblings (Element j t c p ks) i = firstJust (map (\<lambda>k. followingSiblings k i) ks)"
      using None by simp
    have b: "followingSiblings (insertAfter i new (Element j t c p ks)) i =
               firstJust (map (\<lambda>k. followingSiblings (insertAfter i new k) i) ks)"
      using n by (simp add: eq comp_def)
    show ?thesis unfolding a b by (rule rel)
  qed
qed

lemma parentElement_followingSiblings:
  "parentElement d i \<noteq> None \<Longrightarrow> followingSiblings d i \<noteq> None"
proof (induction d)
  case (TextNode s)
  then show ?case by simp
next
  case (Element j t c p ks)
  show ?case
  proof (cases "list_ex (isElem i) ks")
    case True
    then have "siblingsAfter i ks \<noteq> None" by (simp add: siblingsAfter_None_iff)
    then show ?thesis by auto
  next
    case False
    with Element.prems have "firstJust (map (\<lambda>k. parentElement k i) ks) \<noteq> None" by simp
    then obtain k where k: "k \<in> set ks" "parentElement k i \<noteq> None"
      by (auto simp: firstJust_None_iff)
    then have "followingSiblings k i \<noteq> None" by (rule Element.IH)
    with k(1) have "firstJust (map (\<lambda>k. followingSiblings k i) ks) \<noteq> None"
      by (auto simp: firstJust_None_iff)
    then show ?thesis by (auto split: option.splits)
  qed
qed

lemma nextElementSibling_insertAfter:
  assumes "parentElement d i \<noteq> None" and "isElement new"
  shows "nextElementSibling (insertAfter i new d) i = Some new"
proof -
  from assms(1) have "followingSiblings d i \<noteq> None" by (rule parentElement_followingSiblings)
  with followingSiblings_insertAfter [of d i new]
  obtain r where "followingSiblings (insertAfter i new d) i = Some (new # r)" by blast
  with assms(2) show ?thesis by (simp add: nextElementSibling_def)
qed

text \<open>An insertion reported by the injector is an insertion right after the price element.\<close>

lemma processProductBlock_inserts:
  assumes "Injected q t \<in> set (snd (processProductBlock d b))"
  shows "q = elPrice b
         \<and> t = calculateAndFormatUnit (priceKr b) (weightValue b) (weightUnit b)
         \<and> fst (processProductBlock d b) =
             insertAfter q (annotation (freshId (setAttribute q d)) t) (setAttribute q d)
         \<and> nextElementSibling (fst (processProductBlock d b)) q =
             Some (annotation (freshId (setAttribute q d)) t)"
proof -
  define d1 where "d1 = setAttribute (elPrice b) d"
  from assms have par: "parentElement d1 (elPrice b) \<noteq> None"
    and q: "q = elPrice b"
    and t: "t = calculateAndFormatUnit (priceKr b) (weightValue b) (weightUnit b)"
    and r: "fst (processProductBlock d b) = insertAfter (elPrice b) (annotation (freshId d1) t) d1"
    by (auto simp: processProductBlock_def Let_def d1_def split: if_splits)
  have "nextElementSibling (insertAfter (elPrice b) (annotation (freshId d1) t) d1) (elPrice b)
          = Some (annotation (freshId d1) t)"
    using par by (rule nextElementSibling_insertAfter) (simp add: annotation_def)
  with q t r show ?thesis by (simp add: d1_def)
qed

lemma processProductBlock_silent:
  assumes "filter (isInjectionAt (elPrice b)) (snd (processProductBlock d b)) = []"
  shows "fst (processProductBlock d b) = setAttribute (elPrice b) d"
  using assms by (auto simp: processProductBlock_def Let_def split: if_splits)

section \<open>Events of one price element, of a pass, of several passes\<close>

lemma filter_Examined:
  "filter (isMarkOf c) (map Examined vs) = []"
  "filter (isCallFor c) (map Examined vs) = []"
  "filter (isInjectionAt p) (map Examined vs) = []"
  by (induction vs) auto

lemma processProductBlock_no_marks:
  "filter (isMarkOf c) (snd (processProductBlock d b)) = []"
  "filter (isCallFor c) (snd (processProductBlock d b)) = []"
  using processProductBlock_events [of d b] by auto

lemma once_step_mark: "once (isMarkOf c) c doc (processPriceElement doc q)"
proof -
  obtain doc' evs where step: "processPriceElement doc q = (doc', evs)"
    by (cases "processPriceElement doc q")
  from step show ?thesis
  proof (cases rule: processPriceElement_cases)
    case skipped
    with step show ?thesis by (simp add: once_def)
  next
    case (unmatched vs r)
    with step show ?thesis by (simp add: once_def filter_Examined)
  next
    case (found vs b tail)
    have t: "filter (isMarkOf c) tail = []"
      using processProductBlock_no_marks(1) [of c "setAttribute (container b) doc" b] found(5) by simp
    have m: "hasAttribute doc' (container b)" using found(4,5) by (rule found_container_marked)
    have mono: "hasAttribute doc c \<Longrightarrow> hasAttribute doc' c"
      using step by (rule processPriceElement_mono)
    show ?thesis using step found(3,6) t m mono
      by (auto simp: once_def filter_Examined)
  qed
qed

lemma once_step_call: "once (isCallFor c) c doc (processPriceElement doc q)"
proof -
  obtain doc' evs where step: "processPriceElement doc q = (doc', evs)"
    by (cases "processPriceElement doc q")
  from step show ?thesis
  proof (cases rule: processPriceElement_cases)
    case skipped
    with step show ?thesis by (simp add: once_def)
  next
    case (unmatched vs r)
    with step show ?thesis by (simp add: once_def filter_Examined)
  next
    case (found vs b tail)
    have t: "filter (isCallFor c) tail = []"
      using processProductBlock_no_marks(2) [of c "setAttribute (container b) doc" b] found(5) by simp
    have m: "hasAttribute doc' (container b)" using found(4,5) by (rule found_container_marked)
    have mono: "hasAttribute doc c \<Longrightarrow> hasAttribute doc' c"
      using step by (rule processPriceElement_mono)
    show ?thesis using step found(3,6) t m mono
      by (auto simp: once_def filter_Examined)
  qed
qed

lemma once_step_injection: "once (isInjectionAt p) p doc (processPriceElement doc q)"
proof -
  obtain doc' evs where step: "processPriceElement doc q = (doc', evs)"
    by (cases "processPriceElement doc q")
  have mono: "hasAttribute doc p \<Longrightarrow> hasAttribute doc' p"
    using step by (rule processPriceElement_mono)
  from step show ?thesis
  proof (cases rule: processPriceElement_cases)
    case skipped
    with step show ?thesis by (simp add: once_def)
  next
    case (unmatched vs r)
    with step show ?thesis by (simp add: once_def filter_Examined)
  next
    case (found vs b tail)
    have q: "elPrice b = q" using tryContainer_Some [OF found(4)] by simp
    have e: "filter (isInjectionAt p) evs = filter (isInjectionAt p) tail"
      using found(6) by (simp add: filter_Examined)
    consider "tail = [Warned (elPrice b)]" | "tail = []"
      | "tail = [Injected (elPrice b) (calculateAndFormatUnit (priceKr b) (weightValue b) (weightUnit b))]"
      using processProductBlock_events [of "setAttribute (container b) doc" b] found(5) by auto
    then show ?thesis
    proof cases
      case 1
      with step e mono show ?thesis by (simp add: once_def)
    next
      case 2
      with step e mono show ?thesis by (simp add: once_def)
    next
      case 3
      then have "Injected (elPrice b) (calculateAndFormatUnit (priceKr b) (weightValue b) (weightUnit b)) \<in> set tail"
        by simp
      from processProductBlock_injected [OF found(5) this] have "hasAttribute doc' q" using q by simp
      with step e mono 3 q found(1) show ?thesis by (auto simp: once_def)
    qed
  qed
qed

lemma once_seq:
  assumes "once h j d0 (d1, e1)" and "once h j d1 (d2, e2)"
  shows "once h j d0 (d2, e1 @ e2)"
  using assms by (cases "filter h e1 = []") (auto simp: once_def)

lemma once_forEach:
  assumes "\<And>d q. once h j d (processPriceElement d q)"
  shows "once h j doc (forEach doc ps)"
proof (induction ps arbitrary: doc)
  case Nil
  then show ?case by (simp add: once_def)
next
  case (Cons q ps)
  obtain d1 e1 where s: "processPriceElement doc q = (d1, e1)" by (cases "processPriceElement doc q")
  obtain d2 e2 where r: "forEach d1 ps = (d2, e2)" by (cases "forEach d1 ps")
  have "once h j doc (d1, e1)" using assms [of doc q] s by simp
  moreover have "once h j d1 (d2, e2)" using Cons [of d1] r by simp
  ultimately have "once h j doc (d2, e1 @ e2)" by (rule once_seq)
  then show ?case using s r by simp
qed

lemma once_passes:
  assumes "\<And>d q. once h j d (processPriceElement d q)"
  shows "once h j doc (passes n doc)"
proof (induction n arbitrary: doc)
  case 0
  then show ?case by (simp add: once_def)
next
  case (Suc n)
  obtain d1 e1 where s: "findAndProcessPrices doc = (d1, e1)" by (cases "findAndProcessPrices doc")
  obtain d2 e2 where r: "passes n d1 = (d2, e2)" by (cases "passes n d1")
  have "once h j doc (d1, e1)"
    using once_forEach [of h j doc "potentialPriceElements doc", OF assms] s
    by (simp add: findAndProcessPrices_def)
  moreover have "once h j d1 (d2, e2)" using Suc [of d1] r by simp
  ultimately have "once h j doc (d2, e1 @ e2)" by (rule once_seq)
  then show ?case using s r by simp
qed

lemma markedThenCalled_append:
  "markedThenCalled xs \<Longrightarrow> markedThenCalled ys \<Longrightarrow> markedThenCalled (xs @ ys)"
  by (induction xs rule: markedThenCalled.induct) auto

lemma markedThenCalled_Examined: "markedThenCalled (map Examined vs @ es) = markedThenCalled es"
  by (induction vs) auto

lemma markedThenCalled_step: "markedThenCalled (snd (processPriceElement doc q))"
proof -
  obtain doc' evs where step: "processPriceElement doc q = (doc', evs)"
    by (cases "processPriceElement doc q")
  from step show ?thesis
  proof (cases rule: processPriceElement_cases)
    case skipped
    with step show ?thesis by simp
  next
    case (unmatched vs r)
    with step show ?thesis using markedThenCalled_Examined [of vs "[]"] by simp
  next
    case (found vs b tail)
    have "markedThenCalled tail"
      using processProductBlock_events [of "setAttribute (container b) doc" b] found(5) by auto
    with step found(6) show ?thesis by (simp add: markedThenCalled_Examined)
  qed
qed

lemma markedThenCalled_forEach: "markedThenCalled (snd (forEach doc ps))"
proof (induction ps arbitrary: doc)
  case Nil
  then show ?case by simp
next
  case (Cons q ps)
  obtain d1 e1 where s: "processPriceElement doc q = (d1, e1)" by (cases "processPriceElement doc q")
  obtain d2 e2 where r: "forEach d1 ps = (d2, e2)" by (cases "forEach d1 ps")
  have "markedThenCalled e1" using markedThenCalled_step [of doc q] s by simp
  moreover have "markedThenCalled e2" using Cons [of d1] r by simp
  ultimately show ?case using s r by (simp add: markedThenCalled_append)
qed

lemma forEach_append:
  "forEach doc (ps @ qs) =
     (case forEach doc ps of (d1, e1) \<Rightarrow> (case forEach d1 qs of (d2, e2) \<Rightarrow> (d2, e1 @ e2)))"
  by (induction ps arbitrary: doc) (auto split: prod.splits)

lemma once_nonempty:
  assumes "length (filter h (xs @ ys @ zs)) \<le> 1" and "filter h ys = [e]"
  shows "filter h (xs @ ys @ zs) = [e]"
proof -
  from assms have "length (filter h xs) + length (filter h zs) = 0" by simp
  then have "filter h xs = []" "filter h zs = []" by simp_all
  with assms(2) show ?thesis by simp
qed

section \<open>C9: the reentrancy guard\<close>

text \<open>
  C9: within one pass, for every container, the container is marked at most once and the
  injector is called at most once with a block of that container; every call of the
  injector comes right after the marking of the container of its block; a container that
  bears the marker when the pass starts is neither marked nor used for a call, and a
  container marked in the pass bears the marker when the pass ends. When the walk of a
  price candidate finds a validated pair (on the tree that the candidates before it have
  left), the container of that pair is marked exactly once in the pass, exactly one block
  of that container leads to a call of the injector, the block of this pair, and the
  injector runs on the tree in which the container already bears the marker. So of
  several candidates that resolve to one container, the first that finds its pair is the
  only one served.
\<close>

theorem reentrancy_guard:
  "length (filter (isMarkOf c) (snd (findAndProcessPrices doc))) \<le> 1
   \<and> length (filter (isCallFor c) (snd (findAndProcessPrices doc))) \<le> 1
   \<and> markedThenCalled (snd (findAndProcessPrices doc))
   \<and> (hasAttribute doc c \<longrightarrow>
        filter (isMarkOf c) (snd (findAndProcessPrices doc)) = []
        \<and> filter (isCallFor c) (snd (findAndProcessPrices doc)) = [])
   \<and> (filter (isMarkOf c) (snd (findAndProcessPrices doc)) \<noteq> [] \<longrightarrow>
        hasAttribute (fst (findAndProcessPrices doc)) c)
   \<and> (potentialPriceElements doc = ps1 @ p # ps2
        \<and> \<not> hasAttribute (fst (forEach doc ps1)) p
        \<and> walk (fst (forEach doc ps1)) p 8 (Some p) = (vs, Found b) \<longrightarrow>
        filter (isMarkOf (container b)) (snd (findAndProcessPrices doc)) = [MarkedContainer (container b)]
        \<and> filter (isCallFor (container b)) (snd (findAndProcessPrices doc)) = [InjectorCalled b]
        \<and> hasAttribute (setAttribute (container b) (fst (forEach doc ps1))) (container b)
        \<and> processPriceElement (fst (forEach doc ps1)) p =
            (fst (processProductBlock (setAttribute (container b) (fst (forEach doc ps1))) b),
             map Examined vs @ MarkedContainer (container b) # InjectorCalled b
               # snd (processProductBlock (setAttribute (container b) (fst (forEach doc ps1))) b)))"
proof -
  have m: "once (isMarkOf c) c doc (forEach doc (potentialPriceElements doc))" for c
    by (rule once_forEach) (rule once_step_mark)
  have k: "once (isCallFor c) c doc (forEach doc (potentialPriceElements doc))" for c
    by (rule once_forEach) (rule once_step_call)
  have first: "filter (isMarkOf (container b)) (snd (findAndProcessPrices doc)) = [MarkedContainer (container b)]
        \<and> filter (isCallFor (container b)) (snd (findAndProcessPrices doc)) = [InjectorCalled b]
        \<and> hasAttribute (setAttribute (container b) (fst (forEach doc ps1))) (container b)
        \<and> processPriceElement (fst (forEach doc ps1)) p =
            (fst (processProductBlock (setAttribute (container b) (fst (forEach doc ps1))) b),
             map Examined vs @ MarkedContainer (container b) # InjectorCalled b
               # snd (processProductBlock (setAttribute (container b) (fst (forEach doc ps1))) b))"
    if ps: "potentialPriceElements doc = ps1 @ p # ps2"
      and np: "\<not> hasAttribute (fst (forEach doc ps1)) p"
      and w: "walk (fst (forEach doc ps1)) p 8 (Some p) = (vs, Found b)"
  proof -
    obtain d1 e1 where f1: "forEach doc ps1 = (d1, e1)" by (cases "forEach doc ps1")
    obtain d2 e2 where s: "processPriceElement d1 p = (d2, e2)" by (cases "processPriceElement d1 p")
    obtain d3 e3 where f3: "forEach d2 ps2 = (d3, e3)" by (cases "forEach d2 ps2")
    have evs: "snd (findAndProcessPrices doc) = e1 @ e2 @ e3"
      using ps f1 s f3 by (simp add: findAndProcessPrices_def forEach_append)
    from np w f1 have np': "\<not> hasAttribute d1 p" and w': "walk d1 p 8 (Some p) = (vs, Found b)"
      by simp_all
    from walk_Found [OF w'] have nc: "\<not> hasAttribute d1 (last vs)"
      and tc: "tryContainer d1 p (last vs) = Some b" by simp_all
    from tryContainer_Some [OF tc] have c: "container b = last vs" by simp
    obtain d' tail where ppb: "processProductBlock (setAttribute (container b) d1) b = (d', tail)"
      by (cases "processProductBlock (setAttribute (container b) d1) b")
    have e2: "e2 = map Examined vs @ MarkedContainer (container b) # InjectorCalled b # tail"
      using s np' w' nc c ppb by (simp add: processPriceElement_def)
    have t: "filter (isMarkOf (container b)) tail = []" "filter (isCallFor (container b)) tail = []"
      using processProductBlock_no_marks [of "container b" "setAttribute (container b) d1" b] ppb
      by simp_all
    have fm: "filter (isMarkOf (container b)) e2 = [MarkedContainer (container b)]"
      unfolding e2 using t(1) by (simp add: filter_Examined)
    have fk: "filter (isCallFor (container b)) e2 = [InjectorCalled b]"
      unfolding e2 using t(2) by (simp add: filter_Examined)
    have lm: "length (filter (isMarkOf (container b)) (e1 @ e2 @ e3)) \<le> 1"
      using m [of "container b"] evs by (simp add: once_def findAndProcessPrices_def)
    have lk: "length (filter (isCallFor (container b)) (e1 @ e2 @ e3)) \<le> 1"
      using k [of "container b"] evs by (simp add: once_def findAndProcessPrices_def)
    have inTree: "lookup d1 (container b) \<noteq> None"
      using tryContainer_Some [OF tc] c weightMatches_in_tree [of d1 "container b"] by auto
    have marked: "hasAttribute (setAttribute (container b) d1) (container b)"
      using inTree by (simp add: hasAttribute_setAttribute)
    have step: "processPriceElement d1 p =
            (fst (processProductBlock (setAttribute (container b) d1) b),
             map Examined vs @ MarkedContainer (container b) # InjectorCalled b
               # snd (processProductBlock (setAttribute (container b) d1) b))"
      using s ppb e2 np' w' nc c by (simp add: processPriceElement_def)
    have d1: "fst (forEach doc ps1) = d1" using f1 by simp
    show ?thesis unfolding evs d1
      using once_nonempty [OF lm fm] once_nonempty [OF lk fk] marked step by simp
  qed
  show ?thesis
    using m [of c] k [of c] first markedThenCalled_forEach [of doc "potentialPriceElements doc"]
    by (simp add: once_def findAndProcessPrices_def)
qed

text \<open>In \<open>sharedExample\<close> two price elements share the container 3.\<close>

theorem reentrancy_guard_witness:
  "potentialPriceElements sharedExample = [] @ 4 # [5]
   \<and> \<not> hasAttribute (fst (forEach sharedExample [])) 4
   \<and> walk (fst (forEach sharedExample [])) 4 8 (Some 4) =
       ([4, 3], Found \<lparr>container = 3, elPrice = 4, priceKr = Finite False 10,
                         weightValue = Finite False 500, weightUnit = ''g''\<rparr>)
   \<and> snd (findAndProcessPrices sharedExample) =
       [Examined 4, Examined 3, MarkedContainer 3,
        InjectorCalled \<lparr>container = 3, elPrice = 4, priceKr = Finite False 10,
                         weightValue = Finite False 500, weightUnit = ''g''\<rparr>,
        Injected 4 ''~20.00 / kg'', Examined 5, Examined 3]
   \<and> filter (isMarkOf 3) (snd (findAndProcessPrices sharedExample)) = [MarkedContainer 3]
   \<and> filter (isCallFor 3) (snd (findAndProcessPrices sharedExample)) =
       [InjectorCalled \<lparr>container = 3, elPrice = 4, priceKr = Finite False 10,
                         weightValue = Finite False 500, weightUnit = ''g''\<rparr>]
   \<and> markedThenCalled (snd (findAndProcessPrices sharedExample))
   \<and> hasAttribute (setAttribute 3 (fst (forEach sharedExample []))) 3
   \<and> hasAttribute (fst (findAndProcessPrices sharedExample)) 3
   \<and> hasAttribute markedExample 3
   \<and> filter (isMarkOf 3) (snd (findAndProcessPrices markedExample)) = []
   \<and> filter (isCallFor 3) (snd (findAndProcessPrices markedExample)) = []"
proof -
  let ?b = "\<lparr>container = 3, elPrice = 4, priceKr = Finite False 10,
             weightValue = Finite False 500, weightUnit = ''g''\<rparr>"
  note g = reentrancy_guard [of 3 sharedExample "[]" 4 "[5]" "[4, 3]" ?b]
  have a: "filter (isMarkOf 3) (snd (findAndProcessPrices sharedExample)) = [MarkedContainer 3]"
    and b: "filter (isCallFor 3) (snd (findAndProcessPrices sharedExample)) = [InjectorCalled ?b]"
    using g shared_walk(1,2,3) by simp_all
  have c: "markedThenCalled (snd (findAndProcessPrices sharedExample))" using g by blast
  have d: "hasAttribute (fst (findAndProcessPrices sharedExample)) 3" using g a by simp
  have e: "hasAttribute (setAttribute 3 (fst (forEach sharedExample []))) 3"
    using g shared_walk(1,2,3) by simp
  note h = reentrancy_guard [of 3 markedExample "[]" 4 "[5]" "[4, 3]" ?b]
  have m: "filter (isMarkOf 3) (snd (findAndProcessPrices markedExample)) = []"
    and k: "filter (isCallFor 3) (snd (findAndProcessPrices markedExample)) = []"
    using h marked2 by blast+
  show ?thesis using shared_walk(1,2,3) shared_pass a b c d e marked2 m k by blast
qed

section \<open>C3: append once\<close>

lemma once_ext:
  assumes "once h j d0 (d1, e1)" and "hasAttribute d1 j \<longrightarrow> hasAttribute (f d1) j"
  shows "once h j d0 (f d1, e1)"
  using assms by (auto simp: once_def)

lemma once_passesWith:
  assumes "\<And>d q. once h j d (processPriceElement d q)"
    and "\<forall>f \<in> set fs. \<forall>d. hasAttribute d j \<longrightarrow> hasAttribute (f d) j"
  shows "once h j doc (passesWith fs doc)"
  using assms(2)
proof (induction fs arbitrary: doc)
  case Nil
  then show ?case by (simp add: once_def)
next
  case (Cons f fs)
  obtain d1 e1 where s: "findAndProcessPrices doc = (d1, e1)" by (cases "findAndProcessPrices doc")
  obtain d2 e2 where r: "passesWith fs (f d1) = (d2, e2)" by (cases "passesWith fs (f d1)")
  have "once h j doc (d1, e1)"
    using once_forEach [of h j doc "potentialPriceElements doc", OF assms(1)] s
    by (simp add: findAndProcessPrices_def)
  moreover have "hasAttribute d1 j \<longrightarrow> hasAttribute (f d1) j" using Cons.prems by simp
  ultimately have a: "once h j doc (f d1, e1)" by (rule once_ext)
  have "once h j (f d1) (passesWith fs (f d1))" using Cons.IH [of "f d1"] Cons.prems by simp
  then have b: "once h j (f d1) (d2, e2)" using r by simp
  from a b have "once h j doc (d2, e1 @ e2)" by (rule once_seq)
  then show ?case using s r by simp
qed

text \<open>
  C3: for every price element, every tree and every number of passes run one after the
  other, at most one annotation is ever inserted right after that price element: with
  nothing else changing the tree in between, and also when others change the tree
  between the passes in any way that leaves the marker of the price element in place.
  An insertion that the injector reports is an insertion into the tree: the new
  annotation element is the next element sibling of the price element of the block; and
  when the injector reports none, it has set the marker of the price element and nothing
  else.
\<close>

theorem append_once:
  "length (filter (isInjectionAt p) (snd (passes n doc))) \<le> 1
   \<and> ((\<forall>f \<in> set others. \<forall>d. hasAttribute d p \<longrightarrow> hasAttribute (f d) p) \<longrightarrow>
        length (filter (isInjectionAt p) (snd (passesWith others doc))) \<le> 1)
   \<and> (Injected q t \<in> set (snd (processProductBlock d b)) \<longrightarrow>
        q = elPrice b
        \<and> fst (processProductBlock d b) =
            insertAfter q (annotation (freshId (setAttribute q d)) t) (setAttribute q d)
        \<and> nextElementSibling (fst (processProductBlock d b)) q =
            Some (annotation (freshId (setAttribute q d)) t))
   \<and> (filter (isInjectionAt (elPrice b)) (snd (processProductBlock d b)) = [] \<longrightarrow>
        fst (processProductBlock d b) = setAttribute (elPrice b) d)"
proof -
  have "once (isInjectionAt p) p doc (passes n doc)"
    by (rule once_passes) (rule once_step_injection)
  then have a: "length (filter (isInjectionAt p) (snd (passes n doc))) \<le> 1"
    by (simp add: once_def)
  have w: "length (filter (isInjectionAt p) (snd (passesWith others doc))) \<le> 1"
    if h: "\<forall>f \<in> set others. \<forall>d. hasAttribute d p \<longrightarrow> hasAttribute (f d) p"
  proof -
    have "once (isInjectionAt p) p doc (passesWith others doc)"
      using once_step_injection h by (rule once_passesWith)
    then show ?thesis by (simp add: once_def)
  qed
  show ?thesis
    using a w processProductBlock_inserts [of q t d b] processProductBlock_silent [of b d]
    by blast
qed

theorem append_once_witness:
  "snd (passes 2 simpleExample) =
     [Examined 4, Examined 3, MarkedContainer 3,
      InjectorCalled \<lparr>container = 3, elPrice = 4, priceKr = Finite False 99,
                       weightValue = Finite False 500, weightUnit = ''g''\<rparr>,
      Injected 4 ''~198.00 / kg'']
   \<and> length (filter (isInjectionAt 4) (snd (passes 2 simpleExample))) \<le> 1
   \<and> snd (passesWith [insertAfter 5 (Element 9 ''SPAN'' [] False [TextNode ''2 kr'']), (\<lambda>d. d)]
            simpleExample) =
       [Examined 4, Examined 3, MarkedContainer 3,
        InjectorCalled \<lparr>container = 3, elPrice = 4, priceKr = Finite False 99,
                         weightValue = Finite False 500, weightUnit = ''g''\<rparr>,
        Injected 4 ''~198.00 / kg'', Examined 9, Examined 3]
   \<and> length (filter (isInjectionAt 4)
        (snd (passesWith [insertAfter 5 (Element 9 ''SPAN'' [] False [TextNode ''2 kr'']), (\<lambda>d. d)]
            simpleExample))) \<le> 1
   \<and> Injected 4 ''~198.00 / kg''
       \<in> set (snd (processProductBlock (setAttribute 3 simpleExample)
            \<lparr>container = 3, elPrice = 4, priceKr = Finite False 99,
              weightValue = Finite False 500, weightUnit = ''g''\<rparr>))
   \<and> nextElementSibling
        (fst (processProductBlock (setAttribute 3 simpleExample)
            \<lparr>container = 3, elPrice = 4, priceKr = Finite False 99,
              weightValue = Finite False 500, weightUnit = ''g''\<rparr>)) 4
       = Some (annotation 6 ''~198.00 / kg'')
   \<and> filter (isInjectionAt 4)
        (snd (processProductBlock (fst (findAndProcessPrices simpleExample))
            \<lparr>container = 3, elPrice = 4, priceKr = Finite False 99,
              weightValue = Finite False 500, weightUnit = ''g''\<rparr>)) = []
   \<and> fst (processProductBlock (fst (findAndProcessPrices simpleExample))
            \<lparr>container = 3, elPrice = 4, priceKr = Finite False 99,
              weightValue = Finite False 500, weightUnit = ''g''\<rparr>)
       = fst (findAndProcessPrices simpleExample)"
proof -
  let ?b = "\<lparr>container = 3, elPrice = 4, priceKr = Finite False 99,
             weightValue = Finite False 500, weightUnit = ''g''\<rparr>"
  let ?fs = "[insertAfter 5 (Element 9 ''SPAN'' [] False [TextNode ''2 kr'']), (\<lambda>d. d)]"
  note g1 = append_once [of 4 2 simpleExample ?fs 4 "''~198.00 / kg''" "setAttribute 3 simpleExample" ?b]
  note g2 = append_once [of 4 2 simpleExample ?fs 4 "''~198.00 / kg''" "fst (findAndProcessPrices simpleExample)" ?b]
  from g1 have l: "length (filter (isInjectionAt 4) (snd (passes 2 simpleExample))) \<le> 1" by blast
  have keep: "\<forall>f \<in> set ?fs. \<forall>d. hasAttribute d 4 \<longrightarrow> hasAttribute (f d) 4"
    by (simp add: hasAttribute_insertAfter)
  from g1 keep have lw: "length (filter (isInjectionAt 4) (snd (passesWith ?fs simpleExample))) \<le> 1"
    by blast
  from g1 simple_inject(1)
  have "nextElementSibling (fst (processProductBlock (setAttribute 3 simpleExample) ?b)) 4
          = Some (annotation (freshId (setAttribute 4 (setAttribute 3 simpleExample))) ''~198.00 / kg'')"
    by blast
  then have n: "nextElementSibling (fst (processProductBlock (setAttribute 3 simpleExample) ?b)) 4
          = Some (annotation 6 ''~198.00 / kg'')"
    unfolding simple_inject(3) .
  have e: "elPrice ?b = 4" by simp
  from g2 simple_inject(2)
  have "fst (processProductBlock (fst (findAndProcessPrices simpleExample)) ?b)
          = setAttribute (elPrice ?b) (fst (findAndProcessPrices simpleExample))"
    unfolding e by blast
  then have s: "fst (processProductBlock (fst (findAndProcessPrices simpleExample)) ?b)
          = fst (findAndProcessPrices simpleExample)"
    unfolding e simple_inject(4) .
  show ?thesis using passes2 l simple_with lw simple_inject(1,2) n s by blast
qed

section \<open>C2: two passes in a row\<close>

lemma forEach_all_processed:
  "\<forall>q \<in> set ps. hasAttribute doc q \<Longrightarrow> forEach doc ps = (doc, [])"
  by (induction ps) (auto simp: processPriceElement_def)

text \<open>
  C2, as stated: the second of two passes in a row inserts no annotation, and every
  price element has exactly one after both. It fails on \<open>idempotenceExample\<close>: in the
  first pass the price element 6 finds the weight element 4, whose text
  \<open>5 kr 0g100 g\<close> matches first at \<open>0g\<close>, a weight of 0, and is left alone, without a
  marker; then the price element 5 gets its annotation, which stands between \<open>0\<close> and
  \<open>g\<close> in the text of 4. In the second pass the text of 4 matches at \<open>100 g\<close>, and the
  price element 6 gets an annotation. And it fails on \<open>sharedExample\<close>: the price
  element 5 is aborted at the marked container 3 in both passes and has no annotation.
\<close>

theorem second_pass_injects_counterexample:
  "snd (findAndProcessPrices idempotenceExample) =
     [Examined 6, Examined 3, Examined 2, Examined 1, Examined 5, Examined 4, MarkedContainer 4,
      InjectorCalled \<lparr>container = 4, elPrice = 5, priceKr = Finite False 5,
                       weightValue = Finite False 100, weightUnit = ''g''\<rparr>,
      Injected 5 ''~50.00 / kg'']
   \<and> snd (findAndProcessPrices (fst (findAndProcessPrices idempotenceExample))) =
     [Examined 6, Examined 3, MarkedContainer 3,
      InjectorCalled \<lparr>container = 3, elPrice = 6, priceKr = Finite False 7,
                       weightValue = Finite False 100, weightUnit = ''g''\<rparr>,
      Injected 6 ''~70.00 / kg'']
   \<and> potentialPriceElements sharedExample = [4, 5]
   \<and> snd (findAndProcessPrices sharedExample) =
     [Examined 4, Examined 3, MarkedContainer 3,
      InjectorCalled \<lparr>container = 3, elPrice = 4, priceKr = Finite False 10,
                       weightValue = Finite False 500, weightUnit = ''g''\<rparr>,
      Injected 4 ''~20.00 / kg'', Examined 5, Examined 3]
   \<and> snd (findAndProcessPrices (fst (findAndProcessPrices sharedExample))) = [Examined 5, Examined 3]"
proof -
  have c: "potentialPriceElements sharedExample = [4, 5]" by code_simp
  show ?thesis using idem1 idem2 c shared_pass shared_pass2 by blast
qed

text \<open>
  C2, amended: of two passes in a row, the second inserts no annotation after a price
  element that got one in the first, nor after one that bears the marker when the first
  has ended; over both passes a price element gets at most one annotation; and when
  every price candidate of the tree left by the first pass bears the marker, the second
  pass changes nothing and inserts nothing.
\<close>

theorem second_pass_never_repeats:
  assumes "findAndProcessPrices doc = (doc1, evs1)" and "findAndProcessPrices doc1 = (doc2, evs2)"
  shows "(filter (isInjectionAt p) evs1 \<noteq> [] \<longrightarrow> filter (isInjectionAt p) evs2 = [])
         \<and> (hasAttribute doc1 p \<longrightarrow> filter (isInjectionAt p) evs2 = [])
         \<and> length (filter (isInjectionAt p) (evs1 @ evs2)) \<le> 1
         \<and> ((\<forall>q \<in> set (potentialPriceElements doc1). hasAttribute doc1 q) \<longrightarrow> doc2 = doc1 \<and> evs2 = [])"
proof -
  have a: "once (isInjectionAt p) p doc (doc1, evs1)"
    using once_forEach [of "isInjectionAt p" p doc "potentialPriceElements doc", OF once_step_injection]
      assms(1) by (simp add: findAndProcessPrices_def)
  have b: "once (isInjectionAt p) p doc1 (doc2, evs2)"
    using once_forEach [of "isInjectionAt p" p doc1 "potentialPriceElements doc1", OF once_step_injection]
      assms(2) by (simp add: findAndProcessPrices_def)
  have c: "once (isInjectionAt p) p doc (doc2, evs1 @ evs2)" using a b by (rule once_seq)
  have d: "doc2 = doc1 \<and> evs2 = []" if "\<forall>q \<in> set (potentialPriceElements doc1). hasAttribute doc1 q"
    using forEach_all_processed [OF that] assms(2) by (simp add: findAndProcessPrices_def)
  show ?thesis using a b c d by (auto simp: once_def)
qed

theorem second_pass_never_repeats_witness:
  "filter (isInjectionAt 4) (snd (findAndProcessPrices simpleExample)) = [Injected 4 ''~198.00 / kg'']
   \<and> hasAttribute (fst (findAndProcessPrices simpleExample)) 4
   \<and> list_all (hasAttribute (fst (findAndProcessPrices simpleExample)))
        (potentialPriceElements (fst (findAndProcessPrices simpleExample)))
   \<and> filter (isInjectionAt 4) (snd (findAndProcessPrices (fst (findAndProcessPrices simpleExample)))) = []
   \<and> length (filter (isInjectionAt 4)
        (snd (findAndProcessPrices simpleExample)
         @ snd (findAndProcessPrices (fst (findAndProcessPrices simpleExample))))) \<le> 1
   \<and> fst (findAndProcessPrices (fst (findAndProcessPrices simpleExample)))
       = fst (findAndProcessPrices simpleExample)
   \<and> snd (findAndProcessPrices (fst (findAndProcessPrices simpleExample))) = []"
proof -
  have a: "filter (isInjectionAt 4) (snd (findAndProcessPrices simpleExample)) = [Injected 4 ''~198.00 / kg'']"
    unfolding simple_pass1 by simp
  then have a': "filter (isInjectionAt 4) (snd (findAndProcessPrices simpleExample)) \<noteq> []" by simp
  have h: "hasAttribute (fst (findAndProcessPrices simpleExample)) 4"
    unfolding simple_pass1 fst_conv by code_simp
  have b: "\<forall>q \<in> set (potentialPriceElements (fst (findAndProcessPrices simpleExample))).
         hasAttribute (fst (findAndProcessPrices simpleExample)) q"
    unfolding simple_pass1 fst_conv by (rule simple_candidates2)
  then have b': "list_all (hasAttribute (fst (findAndProcessPrices simpleExample)))
        (potentialPriceElements (fst (findAndProcessPrices simpleExample)))"
    by (simp only: list_all_iff)
  have t: "(filter (isInjectionAt 4) (snd (findAndProcessPrices simpleExample)) \<noteq> [] \<longrightarrow>
             filter (isInjectionAt 4) (snd (findAndProcessPrices (fst (findAndProcessPrices simpleExample)))) = [])
         \<and> (hasAttribute (fst (findAndProcessPrices simpleExample)) 4 \<longrightarrow>
             filter (isInjectionAt 4) (snd (findAndProcessPrices (fst (findAndProcessPrices simpleExample)))) = [])
         \<and> length (filter (isInjectionAt 4)
              (snd (findAndProcessPrices simpleExample)
               @ snd (findAndProcessPrices (fst (findAndProcessPrices simpleExample))))) \<le> 1
         \<and> ((\<forall>q \<in> set (potentialPriceElements (fst (findAndProcessPrices simpleExample))).
                hasAttribute (fst (findAndProcessPrices simpleExample)) q) \<longrightarrow>
              fst (findAndProcessPrices (fst (findAndProcessPrices simpleExample)))
                = fst (findAndProcessPrices simpleExample)
              \<and> snd (findAndProcessPrices (fst (findAndProcessPrices simpleExample))) = [])"
    by (rule second_pass_never_repeats) (rule surjective_pairing)+
  show ?thesis using a a' h b b' t by blast
qed

section \<open>The validation guard\<close>

lemma guarded_call_cons:
  assumes "validated b" and "guarded ys"
  shows "guarded (InjectorCalled b # ys)"
proof (cases ys)
  case Nil
  with assms show ?thesis by simp
next
  case (Cons e es)
  with assms show ?thesis by (cases e) auto
qed

lemma guarded_append: "guarded xs \<Longrightarrow> guarded ys \<Longrightarrow> guarded (xs @ ys)"
  by (induction xs rule: guarded.induct) (auto simp: guarded_call_cons)

lemma guarded_Examined: "guarded (map Examined vs @ es) = guarded es"
  by (induction vs) auto

lemma guarded_step: "guarded (snd (processPriceElement doc q))"
proof -
  obtain doc' evs where step: "processPriceElement doc q = (doc', evs)"
    by (cases "processPriceElement doc q")
  from step show ?thesis
  proof (cases rule: processPriceElement_cases)
    case skipped
    with step show ?thesis by simp
  next
    case (unmatched vs r)
    with step show ?thesis using guarded_Examined [of vs "[]"] by simp
  next
    case (found vs b tail)
    have v: "validated b" using tryContainer_Some [OF found(4)] by (simp add: validated_def)
    have "guarded (InjectorCalled b # tail)"
      using processProductBlock_events [of "setAttribute (container b) doc" b] found(5) v by auto
    with step found(6) show ?thesis by (simp add: guarded_Examined)
  qed
qed

lemma guarded_forEach: "guarded (snd (forEach doc ps))"
proof (induction ps arbitrary: doc)
  case Nil
  then show ?case by simp
next
  case (Cons q ps)
  obtain d1 e1 where s: "processPriceElement doc q = (d1, e1)" by (cases "processPriceElement doc q")
  obtain d2 e2 where r: "forEach d1 ps = (d2, e2)" by (cases "forEach d1 ps")
  have "guarded e1" using guarded_step [of doc q] s by simp
  moreover have "guarded e2" using Cons [of d1] r by simp
  ultimately show ?case using s r by (simp add: guarded_append)
qed

lemma validated_nonzero: "validated b \<Longrightarrow> weightValue b \<noteq> Finite s 0"
  by (auto simp: validated_def)

lemma tryContainer_validated: "tryContainer doc p c = Some b \<Longrightarrow> validated b"
  using tryContainer_Some by (simp add: validated_def)

lemma guarded_called: "guarded evs \<Longrightarrow> InjectorCalled b \<in> set evs \<Longrightarrow> validated b"
  by (induction evs rule: guarded.induct) auto

lemma guarded_injected:
  "guarded evs \<Longrightarrow> Injected q t \<in> set evs \<Longrightarrow>
   \<exists>b. InjectorCalled b \<in> set evs \<and> elPrice b = q
       \<and> t = calculateAndFormatUnit (priceKr b) (weightValue b) (weightUnit b)"
  by (induction evs rule: guarded.induct) auto

lemma tryContainer_literals:
  assumes "tryContainer d p c = Some b"
  shows "\<exists>w ws pl pu wl wu.
           weightMatches d c = w # ws
           \<and> regexMatch PRICE_REGEX (elementText d p) = Some (pl, pu)
           \<and> regexMatch WEIGHT_REGEX (textContent w) = Some (wl, wu)
           \<and> b = \<lparr>container = c, elPrice = p, priceKr = cleanNumber pl,
                   weightValue = cleanNumber wl, weightUnit = wu\<rparr>"
  using assms
  by (auto simp: tryContainer_def split: list.splits option.splits if_splits)

lemma processPriceElement_called:
  assumes "InjectorCalled b \<in> set (snd (processPriceElement d p))"
  shows "tryContainer d p (container b) = Some b"
proof -
  obtain d' evs where step: "processPriceElement d p = (d', evs)"
    by (cases "processPriceElement d p")
  from step show ?thesis
  proof (cases rule: processPriceElement_cases)
    case skipped
    with step assms show ?thesis by simp
  next
    case (unmatched vs r)
    with step assms show ?thesis by auto
  next
    case (found vs b' tail)
    have "InjectorCalled b \<notin> set tail"
      using processProductBlock_events [of "setAttribute (container b') d" b'] found(5) by auto
    with step assms found(6) have "b = b'" by auto
    with found(4) show ?thesis by simp
  qed
qed

section \<open>The text of an annotation matches neither pattern\<close>

lemma digitChar_digit: "digitChar d \<in> set ''0123456789''"
  unfolding digitChar_def by (rule nth_mem) simp

lemma digitsOf_digits: "set (digitsOf n) \<subseteq> set ''0123456789''"
proof (induction n rule: digitsOf.induct)
  case (1 n)
  show ?case
  proof (cases "n < 10")
    case True
    then show ?thesis using digitChar_digit [of n] by (simp add: digitsOf_small)
  next
    case False
    then have "digitsOf n = digitsOf (n div 10) @ [digitChar (n mod 10)]"
      by (simp add: digitsOf_big)
    moreover have "set (digitsOf (n div 10)) \<subseteq> set ''0123456789''" using 1 False by simp
    ultimately show ?thesis using digitChar_digit [of "n mod 10"] by simp
  qed
qed

lemma digits_numberChars: "set ''0123456789'' \<subseteq> set numberChars"
  by (simp add: numberChars_def)

lemma digitsOf_numberChars: "set (digitsOf n) \<subseteq> set numberChars"
  using digitsOf_digits digits_numberChars by blast

lemma fixedNotation_numberChars: "set (fixedNotation x) \<subseteq> set numberChars"
proof -
  define m where "m = digitsOf \<lfloor>x * 100 + 1 / 2\<rfloor>"
  define m' where "m' = (if length m \<le> 2 then replicate (3 - length m) CHR ''0'' @ m else m)"
  have "set m \<subseteq> set numberChars" unfolding m_def by (rule digitsOf_numberChars)
  moreover have "set (replicate (3 - length m) CHR ''0'') \<subseteq> set numberChars"
    by (auto simp: numberChars_def)
  ultimately have m': "set m' \<subseteq> set numberChars" by (auto simp: m'_def)
  have "set (take (length m' - 2) m') \<subseteq> set numberChars" "set (drop (length m' - 2) m') \<subseteq> set numberChars"
    using m' set_take_subset [of "length m' - 2" m'] set_drop_subset [of "length m' - 2" m'] by blast+
  moreover have "CHR ''.'' \<in> set numberChars" by (simp add: numberChars_def)
  moreover have "fixedNotation x = take (length m' - 2) m' @ ''.'' @ drop (length m' - 2) m'"
    by (simp add: fixedNotation_def Let_def m_def m'_def)
  ultimately show ?thesis by simp
qed

lemma exponentNotation_numberChars: "set (exponentNotation x) \<subseteq> set numberChars"
proof -
  obtain n k s where sd: "shortestDecimal x = (n, k, s)" by (cases "shortestDecimal x")
  have ds: "set (digitsOf s) \<subseteq> set numberChars" by (rule digitsOf_numberChars)
  have "set (take 1 (digitsOf s)) \<subseteq> set numberChars" "set (drop 1 (digitsOf s)) \<subseteq> set numberChars"
    using ds set_take_subset [of 1 "digitsOf s"] set_drop_subset [of 1 "digitsOf s"] by blast+
  moreover have "set ''.e+'' \<subseteq> set numberChars" by (simp add: numberChars_def)
  ultimately show ?thesis
    using ds digitsOf_numberChars [of "int n - 1"] by (auto simp: exponentNotation_def sd)
qed

lemma toFixed2_numberChars: "set (toFixed2 r) \<subseteq> set numberChars"
proof (cases r)
  case NaN
  then show ?thesis by (simp add: numberChars_def)
next
  case (Infinite s)
  then show ?thesis by (simp add: numberChars_def)
next
  case (Finite s x)
  have "CHR ''-'' \<in> set numberChars" by (simp add: numberChars_def)
  then show ?thesis
    using Finite fixedNotation_numberChars [of x] exponentNotation_numberChars [of x] by auto
qed

lemma calculateAndFormatUnit_shape:
  "\<exists>num tail. calculateAndFormatUnit p w u = ''~'' @ num @ tail
      \<and> set num \<subseteq> set numberChars \<and> (tail = '' / kg'' \<or> tail = '' / L'')"
proof (cases "toLowerCase u = ''g'' \<or> toLowerCase u = ''ml''")
  case True
  define num where "num = toFixed2 (jsMul (jsDiv p w) (Finite False 1000))"
  define tail where "tail = (if toLowerCase u = ''g'' then '' / kg'' else '' / L'')"
  have "set num \<subseteq> set numberChars" unfolding num_def by (rule toFixed2_numberChars)
  moreover have "calculateAndFormatUnit p w u = ''~'' @ num @ tail"
    using True by (simp add: calculateAndFormatUnit_def Let_def num_def tail_def)
  moreover have "tail = '' / kg'' \<or> tail = '' / L''" by (simp add: tail_def)
  ultimately show ?thesis by blast
next
  case False
  define num where "num = toFixed2 (jsDiv p w)"
  define tail where "tail = (if toLowerCase u = ''kg'' then '' / kg'' else '' / L'')"
  have "set num \<subseteq> set numberChars" unfolding num_def by (rule toFixed2_numberChars)
  moreover have "calculateAndFormatUnit p w u = ''~'' @ num @ tail"
    using False by (simp add: calculateAndFormatUnit_def Let_def num_def tail_def)
  moreover have "tail = '' / kg'' \<or> tail = '' / L''" by (simp add: tail_def)
  ultimately show ?thesis by blast
qed

lemma numberChars_not_space_all: "\<forall>c \<in> set numberChars. \<not> isSpace c"
  by code_simp

lemma numberChars_not_space: "c \<in> set numberChars \<Longrightarrow> \<not> isSpace c"
  using numberChars_not_space_all by blast

lemma numberChars_upper_all:
  "\<forall>c \<in> set numberChars.
     toUpperChar c \<noteq> CHR ''K'' \<and> toUpperChar c \<noteq> CHR ''S'' \<and> toUpperChar c \<noteq> CHR ''U''
     \<and> toUpperChar c \<noteq> CHR ''$'' \<and> toUpperChar c \<noteq> CHR 0xC2 \<and> toUpperChar c \<noteq> CHR ''G''
     \<and> toUpperChar c \<noteq> CHR ''L'' \<and> toUpperChar c \<noteq> CHR ''M''"
  by code_simp

lemma numberChars_upper:
  "c \<in> set numberChars \<Longrightarrow>
     toUpperChar c \<noteq> CHR ''K'' \<and> toUpperChar c \<noteq> CHR ''S'' \<and> toUpperChar c \<noteq> CHR ''U''
     \<and> toUpperChar c \<noteq> CHR ''$'' \<and> toUpperChar c \<noteq> CHR 0xC2 \<and> toUpperChar c \<noteq> CHR ''G''
     \<and> toUpperChar c \<noteq> CHR ''L'' \<and> toUpperChar c \<noteq> CHR ''M''"
  using numberChars_upper_all by blast

lemma literalCI_Nil: "literalCI [] z"
  by (simp add: literalCI_def)

lemma literalCI_Cons_Nil: "\<not> literalCI (a # t) []"
  by (simp add: literalCI_def)

lemma literalCI_Cons_Cons: "literalCI (a # t) (c # z) = (toUpperChar c = toUpperChar a \<and> literalCI t z)"
  by (auto simp: literalCI_def)

lemma token_upper:
  "toUpperChar CHR ''k'' = CHR ''K''" "toUpperChar CHR ''s'' = CHR ''S''"
  "toUpperChar CHR ''e'' = CHR ''E''" "toUpperChar CHR ''u'' = CHR ''U''"
  "toUpperChar CHR ''$'' = CHR ''$''" "toUpperChar (CHR 0xC2) = CHR 0xC2"
  "toUpperChar CHR ''g'' = CHR ''G''" "toUpperChar CHR ''l'' = CHR ''L''"
  "toUpperChar CHR ''m'' = CHR ''M''" "toUpperChar CHR '' '' = CHR '' ''"
  "toUpperChar CHR ''/'' = CHR ''/''"
  by code_simp+

lemma unitGroup_after_number:
  assumes "v \<noteq> []" and "set v \<subseteq> set numberChars" and "tail = '' / kg'' \<or> tail = '' / L''"
    and "toks = PRICE_REGEX \<or> toks = WEIGHT_REGEX"
  shows "unitGroup toks (v @ tail) = None"
proof -
  from assms(1) obtain c v' where v: "v = c # v'" by (cases v) auto
  with assms(2) have c: "c \<in> set numberChars" "set v' \<subseteq> set numberChars" by auto
  note uc = numberChars_upper [OF c(1)]
  have second: "\<not> literalCI (CHR ''u'' # t) (v' @ tail)" for t
  proof (cases v')
    case Nil
    with assms(3) show ?thesis by (auto simp: literalCI_Cons_Cons token_upper)
  next
    case (Cons c2 v'')
    with c(2) have "c2 \<in> set numberChars" by simp
    from numberChars_upper [OF this] Cons show ?thesis
      by (simp add: literalCI_Cons_Cons token_upper)
  qed
  show ?thesis
    using assms(4) uc second
    by (auto simp: v PRICE_REGEX_def WEIGHT_REGEX_def literalCI_Cons_Cons token_upper)
qed

lemma unitGroup_tail:
  assumes "tail = '' / kg'' \<or> tail = '' / L''" and "toks = PRICE_REGEX \<or> toks = WEIGHT_REGEX"
    and "z \<in> set (spacesStar tail)"
  shows "unitGroup toks z = None"
proof -
  have "takeWhile isSpace tail = '' ''" using assms(1) by (auto simp: isSpace_def)
  then have "spacesStar tail = [drop 1 tail, tail]" by (simp add: spacesStar_def)
  with assms(3) have "z = drop 1 tail \<or> z = tail" by auto
  then show ?thesis
    using assms(1,2)
    by (auto simp: PRICE_REGEX_def WEIGHT_REGEX_def literalCI_Cons_Cons token_upper)
qed

lemma spacesStar_nonspace: "\<not> isSpace c \<Longrightarrow> spacesStar (c # s) = [c # s]"
  by (simp add: spacesStar_def)

lemma after_number:
  assumes "set v \<subseteq> set numberChars" and "tail = '' / kg'' \<or> tail = '' / L''"
    and "toks = PRICE_REGEX \<or> toks = WEIGHT_REGEX" and "z \<in> set (spacesStar (v @ tail))"
  shows "unitGroup toks z = None"
proof (cases v)
  case Nil
  with assms show ?thesis using unitGroup_tail by simp
next
  case (Cons c v')
  with assms(1) have "\<not> isSpace c" using numberChars_not_space by simp
  with Cons assms(4) have "z = v @ tail" by (simp add: spacesStar_nonspace)
  then show ?thesis using unitGroup_after_number [OF _ assms(1,2,3)] Cons by simp
qed

lemma takeWhile_before_stop: "\<not> P c \<Longrightarrow> takeWhile P (u @ c # t) = takeWhile P u"
  by (induction u) auto

lemma digitsPlus_tail:
  assumes "\<not> isDigit c0" and "(l, rest) \<in> set (digitsPlus (u @ c0 # t))"
  shows "\<exists>k. 1 \<le> k \<and> k \<le> length u \<and> rest = drop k u @ c0 # t"
proof -
  from assms(2) obtain k where k: "1 \<le> k" "k \<le> length (takeWhile isDigit (u @ c0 # t))"
    "rest = drop k (u @ c0 # t)"
    by (auto simp: in_digitsPlus)
  have "k \<le> length u"
    using k(2) takeWhile_before_stop [of isDigit c0 u t, OF assms(1)] length_takeWhile_le [of isDigit u]
    by simp
  then show ?thesis using k(1,3) by auto
qed

lemma numberGroup_tail:
  assumes "\<not> isDigit c0" and "c0 \<noteq> CHR ''.''" and "c0 \<noteq> CHR '',''"
    and "(l, rest) \<in> set (numberGroup (u @ c0 # t))"
  shows "\<exists>v. rest = v @ c0 # t \<and> set v \<subseteq> set u"
proof -
  from assms(4) consider (frac) a x where "(a, x) \<in> set (digitsPlus (u @ c0 # t))" "(l, rest) \<in> set (fraction (a, x))"
    | (plain) "(l, rest) \<in> set (digitsPlus (u @ c0 # t))"
    by (auto simp: numberGroup_def)
  then show ?thesis
  proof cases
    case plain
    from digitsPlus_tail [OF assms(1) plain] obtain k where "rest = drop k u @ c0 # t" by blast
    then show ?thesis using set_drop_subset [of k u] by blast
  next
    case frac
    from digitsPlus_tail [OF assms(1) frac(1)] obtain k where k: "x = drop k u @ c0 # t" by blast
    show ?thesis
    proof (cases "drop k u")
      case Nil
      with k frac(2) assms(2,3) show ?thesis by (simp add: fraction_def)
    next
      case (Cons c r)
      with k have x: "x = c # (r @ c0 # t)" by simp
      with frac(2) obtain l' where "(l', rest) \<in> set (digitsPlus (r @ c0 # t))"
        by (auto simp: fraction_def split: if_splits)
      from digitsPlus_tail [OF assms(1) this] obtain k' where "rest = drop k' r @ c0 # t" by blast
      moreover have "set (drop k' r) \<subseteq> set u"
        using set_drop_subset [of k' r] set_drop_subset [of k u] Cons by auto
      ultimately show ?thesis by blast
    qed
  qed
qed

lemma matchAt_eq_None_unitGroup:
  "matchAt toks s = None \<longleftrightarrow>
     (\<forall>nr \<in> set (numberGroup s). \<forall>z \<in> set (spacesStar (snd nr)). unitGroup toks z = None)"
  by (simp add: matchAt_def firstSome_eq_None)

lemma matchAt_number_tail:
  assumes "set u \<subseteq> set numberChars" and "tail = '' / kg'' \<or> tail = '' / L''"
    and "toks = PRICE_REGEX \<or> toks = WEIGHT_REGEX"
  shows "matchAt toks (u @ tail) = None"
proof -
  from assms(2) obtain t where tail: "tail = CHR '' '' # t" by auto
  have sp: "\<not> isDigit CHR '' ''" "CHR '' '' \<noteq> CHR ''.''" "CHR '' '' \<noteq> CHR '',''"
    by (simp_all add: isDigit_def)
  have "unitGroup toks z = None"
    if nr: "(l, rest) \<in> set (numberGroup (u @ tail))" and z: "z \<in> set (spacesStar rest)" for l rest z
  proof -
    from numberGroup_tail [OF sp nr [unfolded tail]] obtain v
      where v: "rest = v @ tail" "set v \<subseteq> set u" using tail by auto
    then have "set v \<subseteq> set numberChars" using assms(1) by blast
    from after_number [OF this assms(2,3)] z v(1) show ?thesis by simp
  qed
  then show ?thesis by (auto simp: matchAt_eq_None_unitGroup)
qed

lemma matchAt_nondigit: "\<not> isDigit c \<Longrightarrow> matchAt toks (c # s) = None"
  by (simp add: matchAt_def numberGroup_def digitsPlus_def)

lemma regexMatch_tail:
  assumes "tail = '' / kg'' \<or> tail = '' / L''"
  shows "regexMatch toks tail = None"
  using assms by (auto simp: matchAt_nondigit isDigit_def)

lemma regexMatch_number_tail:
  assumes "set u \<subseteq> set numberChars" and "tail = '' / kg'' \<or> tail = '' / L''"
    and "toks = PRICE_REGEX \<or> toks = WEIGHT_REGEX"
  shows "regexMatch toks (u @ tail) = None"
  using assms(1)
proof (induction u)
  case Nil
  then show ?case using regexMatch_tail [OF assms(2)] by simp
next
  case (Cons c u)
  have "matchAt toks ((c # u) @ tail) = None"
    using Cons.prems assms(2,3) by (rule matchAt_number_tail)
  moreover have "regexMatch toks (u @ tail) = None" using Cons by simp
  ultimately show ?case by simp
qed

section \<open>C10: the annotation is no input of the engine\<close>

text \<open>
  C10: for every price, weight and unit (the validated ones among them), the text of the
  annotation that the injector builds, \<open>- \<close> followed by the output of the calculator,
  matches neither the price pattern nor the weight pattern; so in no tree and in no pass
  is an annotation element a price candidate, or a weight match of a container.
\<close>

theorem annotation_matches_neither_pattern:
  "\<not> matches PRICE_REGEX (textContent (annotation i (calculateAndFormatUnit p w u)))
   \<and> \<not> matches WEIGHT_REGEX (textContent (annotation i (calculateAndFormatUnit p w u)))
   \<and> textContent (annotation i (calculateAndFormatUnit p w u)) = ''- '' @ calculateAndFormatUnit p w u
   \<and> \<not> isPotentialPriceElement doc (annotation i (calculateAndFormatUnit p w u))
   \<and> annotation i (calculateAndFormatUnit p w u) \<notin> set (weightMatches doc c)"
proof -
  obtain num tail where s: "calculateAndFormatUnit p w u = ''~'' @ num @ tail"
    "set num \<subseteq> set numberChars" "tail = '' / kg'' \<or> tail = '' / L''"
    using calculateAndFormatUnit_shape by blast
  have t: "textContent (annotation i (calculateAndFormatUnit p w u)) = ''- ~'' @ num @ tail"
    by (simp add: annotation_def s(1))
  have "regexMatch toks (''- ~'' @ num @ tail) = None" if "toks = PRICE_REGEX \<or> toks = WEIGHT_REGEX" for toks
    using regexMatch_number_tail [OF s(2,3) that]
    by (simp add: matchAt_nondigit isDigit_def)
  then have m: "\<not> matches PRICE_REGEX (textContent (annotation i (calculateAndFormatUnit p w u)))"
    "\<not> matches WEIGHT_REGEX (textContent (annotation i (calculateAndFormatUnit p w u)))"
    using t by (simp_all add: matches_def)
  have x: "textContent (annotation i (calculateAndFormatUnit p w u)) = ''- '' @ calculateAndFormatUnit p w u"
    by (simp add: annotation_def)
  have c: "\<not> isPotentialPriceElement doc (annotation i (calculateAndFormatUnit p w u))"
    using m(1) by (simp add: isPotentialPriceElement_def)
  have k: "annotation i (calculateAndFormatUnit p w u) \<notin> set (weightMatches doc c)"
    using m(2) by (auto simp: weightMatches_def split: option.splits)
  show ?thesis using m x c k by blast
qed

theorem annotation_matches_neither_pattern_witness:
  "textContent (annotation 6 (calculateAndFormatUnit (Finite False 99) (Finite False 500) ''g''))
     = ''- ~198.00 / kg''
   \<and> \<not> matches PRICE_REGEX ''- ~198.00 / kg''
   \<and> \<not> matches WEIGHT_REGEX ''- ~198.00 / kg''
   \<and> \<not> isPotentialPriceElement (fst (findAndProcessPrices simpleExample)) (annotation 6 ''~198.00 / kg'')
   \<and> annotation 6 ''~198.00 / kg'' \<notin> set (weightMatches (fst (findAndProcessPrices simpleExample)) 3)"
proof -
  have e: "calculateAndFormatUnit (Finite False 99) (Finite False 500) ''g'' = ''~198.00 / kg''"
    by code_simp
  have t: "textContent (annotation 6 ''~198.00 / kg'') = ''- ~198.00 / kg''"
    by (simp add: annotation_def)
  note g = annotation_matches_neither_pattern
    [of 6 "Finite False 99" "Finite False 500" "''g''" "fst (findAndProcessPrices simpleExample)" 3]
  show ?thesis using g unfolding e t by blast
qed

section \<open>Overflow of the binary64 rounding\<close>

lemma pow2_powi: "pow2 k = 2 powi k"
  by (simp add: pow2_def power_int_def power_inverse inverse_eq_divide power_one_over)

lemma bitlen_powi:
  assumes "0 < a"
  shows "(2::rat) powi (bitlen a - 1) \<le> of_int a \<and> of_int a < (2::rat) powi (bitlen a)"
proof -
  have b: "1 \<le> bitlen a" using assms bitlen_nonneg [of a] bitlen_eq_zero_iff [of a] by linarith
  from bitlen_bounds [OF assms] have "2 ^ nat (bitlen a - 1) \<le> a" "a < 2 ^ nat (bitlen a)" by simp_all
  then have "(of_int (2 ^ nat (bitlen a - 1)) :: rat) \<le> of_int a" "(of_int a :: rat) < of_int (2 ^ nat (bitlen a))"
    by (simp_all only: of_int_le_iff of_int_less_iff)
  then show ?thesis using b by (simp add: power_int_def)
qed

lemma ilog2_bounds:
  assumes "0 < x"
  shows "pow2 (ilog2 x) \<le> x \<and> x < pow2 (ilog2 x + 1)"
proof -
  obtain a b where q: "quotient_of x = (a, b)" by (cases "quotient_of x")
  have b: "0 < b" using q by (rule quotient_of_denom_pos)
  have x: "x = of_int a / of_int b" using q by (rule quotient_of_div)
  have a: "0 < a" using assms b x by (simp add: zero_less_divide_iff)
  define e0 where "e0 = bitlen a - bitlen b"
  note ba = bitlen_powi [OF a] and bb = bitlen_powi [OF b]
  have ra: "(0::rat) \<le> of_int a" "(0::rat) < of_int b" using a b by simp_all
  have "of_int a / of_int b < (2::rat) powi (bitlen a) / 2 powi (bitlen b - 1)"
    using ra ba bb by (intro frac_less) simp_all
  also have "\<dots> = 2 powi (e0 + 1)"
    using power_int_diff [of "2::rat" "bitlen a" "bitlen b - 1"] by (simp add: e0_def algebra_simps)
  finally have up: "x < 2 powi (e0 + 1)" using x by simp
  have "(2::rat) powi (bitlen a - 1) / 2 powi (bitlen b) \<le> of_int a / of_int b"
    using ra ba bb by (intro frac_le) simp_all
  moreover have "(2::rat) powi (bitlen a - 1) / 2 powi (bitlen b) = 2 powi (e0 - 1)"
    using power_int_diff [of "2::rat" "bitlen a - 1" "bitlen b"] by (simp add: e0_def algebra_simps)
  ultimately have lo: "2 powi (e0 - 1) \<le> x" using x by simp
  have il: "ilog2 x = (if 2 powi e0 \<le> x then e0 else e0 - 1)"
    by (simp add: ilog2_def Let_def q e0_def pow2_powi)
  show ?thesis
  proof (cases "2 powi e0 \<le> x")
    case True
    with il up show ?thesis by (simp add: pow2_powi)
  next
    case False
    with il lo show ?thesis by (simp add: pow2_powi)
  qed
qed

lemma ilog2_ge:
  assumes "2 powi k \<le> x"
  shows "k \<le> ilog2 x"
proof (rule ccontr)
  assume "\<not> k \<le> ilog2 x"
  then have "ilog2 x + 1 \<le> k" by simp
  then have "(2::rat) powi (ilog2 x + 1) \<le> 2 powi k" by (intro power_int_increasing) simp_all
  moreover have "0 < x" using assms zero_less_power_int [of "2::rat" k] by linarith
  ultimately show False using ilog2_bounds [of x] assms by (simp add: pow2_powi)
qed

lemma roundHalfEven_ge_floor: "\<lfloor>r\<rfloor> \<le> roundHalfEven r"
  by (simp add: roundHalfEven_def Let_def)

lemma roundBinary64_overflow:
  assumes "2 ^ 1024 \<le> x"
  shows "2 ^ 1024 \<le> roundBinary64 x"
proof -
  have px: "2 powi 1024 \<le> x" using assms by simp
  have x0: "0 < x" using assms by (rule less_le_trans [rotated]) simp
  define e where "e = ilog2 x"
  have e: "1024 \<le> e" unfolding e_def using px by (rule ilog2_ge)
  have lo: "2 powi e \<le> x" using ilog2_bounds [OF x0] by (simp add: e_def pow2_powi)
  define q where "q = e - 52"
  have q: "max (ilog2 x) (- 1022) - 52 = q" using e by (simp add: q_def e_def)
  have "(2::rat) powi e / 2 powi q \<le> x / 2 powi q"
    using lo by (intro divide_right_mono) simp_all
  moreover have "(2::rat) powi e / 2 powi q = 2 powi 52"
    using power_int_diff [of "2::rat" e q] by (simp add: q_def)
  ultimately have "of_int (2 ^ 52) \<le> x / 2 powi q" by simp
  then have "2 ^ 52 \<le> \<lfloor>x / 2 powi q\<rfloor>" by (simp only: le_floor_iff)
  then have "2 ^ 52 \<le> roundHalfEven (x / 2 powi q)"
    using roundHalfEven_ge_floor [of "x / 2 powi q"] by linarith
  then have "(of_int (2 ^ 52) :: rat) \<le> of_int (roundHalfEven (x / 2 powi q))"
    by (simp only: of_int_le_iff)
  then have s1: "(2::rat) powi 52 * 2 powi q \<le> of_int (roundHalfEven (x / 2 powi q)) * 2 powi q"
    by (intro mult_right_mono) simp_all
  have s2: "(2::rat) powi e = 2 powi 52 * 2 powi q"
    using power_int_add [of "2::rat" 52 q] by (simp add: q_def)
  have s3: "(2::rat) powi 1024 \<le> 2 powi e" using e by (intro power_int_increasing) simp_all
  have s4: "roundBinary64 x = of_int (roundHalfEven (x / 2 powi q)) * 2 powi q"
    using x0 q by (simp add: roundBinary64_def Let_def pow2_powi)
  have "(2::rat) powi 1024 \<le> 2 powi 52 * 2 powi q" using s3 by (simp only: s2)
  then have "(2::rat) powi 1024 \<le> roundBinary64 x" unfolding s4 using s1 by (rule order_trans)
  then show ?thesis by (simp only: power_int_numeral)
qed

lemma fromRat_overflow:
  assumes "2 ^ 1024 \<le> x"
  shows "fromRat neg x = Infinite neg"
proof -
  have y: "2 ^ 1024 \<le> roundBinary64 x" using assms by (rule roundBinary64_overflow)
  then have "2 powi 1024 \<le> roundBinary64 x" by simp
  then have "1024 \<le> ilog2 (roundBinary64 x)" by (rule ilog2_ge)
  moreover have "roundBinary64 x \<noteq> 0" using y by auto
  ultimately show ?thesis by (simp add: fromRat_def Let_def)
qed

section \<open>A literal of digits\<close>

lemma isDigit_chars: "isDigit c \<Longrightarrow> c \<noteq> CHR '','' \<and> c \<noteq> CHR ''-'' \<and> c \<noteq> CHR ''+'' \<and> c \<noteq> CHR ''I'' \<and> \<not> isSpace c"
  by (auto simp: isDigit_def isSpace_def)

lemma replaceComma_digits: "\<forall>c \<in> set ds. isDigit c \<Longrightarrow> replaceComma ds = ds"
  by (induction ds) (auto dest: isDigit_chars)

lemma cleanNumber_digits:
  assumes "ds \<noteq> []" and "\<forall>c \<in> set ds. isDigit c"
  shows "cleanNumber ds = fromRat False (of_int (digitsValue 0 ds))"
proof -
  from assms obtain c r where ds: "ds = c # r" by (cases ds) auto
  with assms(2) have c: "isDigit c" by simp
  note nc = isDigit_chars [OF c]
  have tw: "takeWhile isDigit ds = ds" "dropWhile isDigit ds = []" using assms(2) by simp_all
  have inf: "take 8 ds \<noteq> ''Infinity''" using nc by (auto simp: ds)
  have sl: "signedLiteral False ds = fromRat False (of_int (digitsValue 0 ds))"
    using assms(1) inf
    by (simp add: signedLiteral_def unsignedLiteral_def Let_def tw exponentPart_def pow10_def)
  have "parseFloat ds = signedLiteral False ds"
    using nc by (simp add: parseFloat_def ds)
  then show ?thesis
    by (simp add: cleanNumber_def replaceComma_digits [OF assms(2)] sl)
qed

lemma digitsValue_lower:
  "\<forall>c \<in> set ds. isDigit c \<Longrightarrow> acc * 10 ^ length ds \<le> digitsValue acc ds"
proof (induction ds arbitrary: acc)
  case Nil
  then show ?case by simp
next
  case (Cons c ds)
  then have "isDigit c" by simp
  then have "(0::int) \<le> of_char c - 48" by (auto simp: isDigit_def)
  then have "acc * 10 * 10 ^ length ds \<le> (10 * acc + (of_char c - 48)) * 10 ^ length ds"
    by (intro mult_right_mono) simp_all
  also have "\<dots> \<le> digitsValue (10 * acc + (of_char c - 48)) ds" using Cons by simp
  finally show ?case by (simp add: mult.assoc)
qed

lemma hugeLiteral_overflow: "cleanNumber hugeLiteral = Infinite False"
proof -
  have d: "\<forall>c \<in> set hugeLiteral. isDigit c" by (auto simp: hugeLiteral_def isDigit_def)
  have "(1::int) * 10 ^ length (replicate 309 CHR ''0'') \<le> digitsValue 1 (replicate 309 CHR ''0'')"
    by (rule digitsValue_lower) (simp add: isDigit_def)
  then have "(10::int) ^ 309 \<le> digitsValue 0 hugeLiteral" by (simp add: hugeLiteral_def)
  moreover have "(2::int) ^ 1024 \<le> 10 ^ 309" by simp
  ultimately have "(2::int) ^ 1024 \<le> digitsValue 0 hugeLiteral" by linarith
  then have "(of_int (2 ^ 1024) :: rat) \<le> of_int (digitsValue 0 hugeLiteral)" by (simp only: of_int_le_iff)
  then have "(2::rat) ^ 1024 \<le> of_int (digitsValue 0 hugeLiteral)" by simp
  then have "fromRat False (of_int (digitsValue 0 hugeLiteral)) = Infinite False" by (rule fromRat_overflow)
  moreover have "hugeLiteral \<noteq> []" by (simp add: hugeLiteral_def)
  ultimately show ?thesis using cleanNumber_digits [OF _ d] by simp
qed

lemma concat_map_empty: "(\<And>x. x \<in> set xs \<Longrightarrow> f x = []) \<Longrightarrow> concat (map f xs) = []"
  by (induction xs) auto

lemma rev_upt_from_1: "1 \<le> n \<Longrightarrow> rev [1 ..< Suc n] = n # rev [1 ..< n]"
  by simp

lemma matchAt_digits_kr:
  assumes "ds \<noteq> []" and "\<forall>c \<in> set ds. isDigit c"
  shows "matchAt PRICE_REGEX (ds @ '' kr'') = Some (ds, ''kr'')"
proof -
  define s where "s = ds @ '' kr''"
  have sp: "\<not> isDigit CHR '' ''" by (simp add: isDigit_def)
  have tw: "takeWhile isDigit s = ds"
    using takeWhile_before_stop [of isDigit "CHR '' ''" ds "''kr''", OF sp] assms(2) by (simp add: s_def)
  have n: "1 \<le> length ds" using assms(1) by (cases ds) auto
  have fr: "fraction x = []" if "x \<in> set (digitsPlus s)" for x
  proof -
    from that obtain k where k: "1 \<le> k" "k \<le> length ds" "x = (take k s, drop k s)"
      by (auto simp: in_digitsPlus tw)
    show ?thesis
    proof (cases "k = length ds")
      case True
      then have "drop k s = '' kr''" by (simp add: s_def)
      then show ?thesis using k(3) by (simp add: fraction_def)
    next
      case False
      then have "k < length ds" using k(2) by simp
      then have d: "drop k s = ds ! k # (drop (Suc k) ds @ '' kr'')"
        by (simp add: s_def Cons_nth_drop_Suc)
      have "isDigit (ds ! k)" using assms(2) \<open>k < length ds\<close> by simp
      then have "ds ! k \<noteq> CHR ''.''" "ds ! k \<noteq> CHR '',''" by (auto simp: isDigit_def)
      then show ?thesis using k(3) d by (simp add: fraction_def)
    qed
  qed
  have ng: "numberGroup s = digitsPlus s"
    using concat_map_empty [of "digitsPlus s" fraction, OF fr] by (simp add: numberGroup_def)
  have "digitsPlus s = (take (length ds) s, drop (length ds) s)
          # map (\<lambda>k. (take k s, drop k s)) (rev [1 ..< length ds])"
    unfolding digitsPlus_def tw rev_upt_from_1 [OF n] by simp
  then have dp: "digitsPlus s = (ds, '' kr'') # map (\<lambda>k. (take k s, drop k s)) (rev [1 ..< length ds])"
    by (simp add: s_def)
  have st: "spacesStar '' kr'' = [''kr'', '' kr'']"
    by (simp add: spacesStar_def isSpace_def)
  have ug: "unitGroup PRICE_REGEX ''kr'' = Some ''kr''"
    by (simp add: PRICE_REGEX_def literalCI_def)
  show ?thesis
    unfolding s_def [symmetric] matchAt_def ng dp by (simp add: st ug)
qed

lemma regexMatch_digits_kr:
  assumes "ds \<noteq> []" and "\<forall>c \<in> set ds. isDigit c"
  shows "regexMatch PRICE_REGEX (ds @ '' kr'') = Some (ds, ''kr'')"
proof -
  from assms(1) obtain c r where ds: "ds = c # r" by (cases ds) auto
  have "regexMatch PRICE_REGEX (c # (r @ '' kr'')) = Some (ds, ''kr'')"
    using matchAt_digits_kr [OF assms] by (simp add: ds)
  then show ?thesis by (simp add: ds)
qed

lemma hugeLiteral_digits: "hugeLiteral \<noteq> [] \<and> (\<forall>c \<in> set hugeLiteral. isDigit c)"
  by (auto simp: hugeLiteral_def isDigit_def)

section \<open>C6: the validation guard\<close>

text \<open>
  C6, as stated: the division of the calculator never produces infinity. It fails: the
  guard of lines 123 to 128 tests that price and weight are not NaN and greater than 0,
  and nothing bounds them from above. The price pattern extracts a literal of any length,
  \<open>parseFloat\<close> turns \<open>10^309\<close> into \<open>Infinity\<close>, which passes the guard, and the
  quotient of \<open>Infinity\<close> and 1 is \<open>Infinity\<close>.
\<close>

theorem infinite_rate_counterexample:
  "regexMatch PRICE_REGEX (hugeLiteral @ '' kr'') = Some (hugeLiteral, ''kr'')
   \<and> cleanNumber hugeLiteral = Infinite False
   \<and> \<not> isNaN (Infinite False) \<and> greaterZero (Infinite False)
   \<and> regexMatch WEIGHT_REGEX ''1 kg'' = Some (''1'', ''kg'')
   \<and> cleanNumber ''1'' = Finite False 1
   \<and> \<not> isNaN (Finite False 1) \<and> greaterZero (Finite False 1)
   \<and> jsDiv (Infinite False) (Finite False 1) = Infinite False
   \<and> calculateAndFormatUnit (Infinite False) (Finite False 1) ''kg'' = ''~Infinity / kg''"
proof -
  have a: "regexMatch PRICE_REGEX (hugeLiteral @ '' kr'') = Some (hugeLiteral, ''kr'')"
    using hugeLiteral_digits by (intro regexMatch_digits_kr) simp_all
  have b: "regexMatch WEIGHT_REGEX ''1 kg'' = Some (''1'', ''kg'')" by code_simp
  have c: "cleanNumber ''1'' = Finite False 1" by code_simp
  have d: "calculateAndFormatUnit (Infinite False) (Finite False 1) ''kg'' = ''~Infinity / kg''"
    by code_simp
  show ?thesis using a b c d hugeLiteral_overflow by simp
qed

text \<open>
  C6, amended: in a pass an annotation is inserted only by a call of the injector, with
  the text that the calculator computes from the block of that call; the injector is
  called only with a block whose price and weight are not NaN and greater than 0, and
  these are the normalized literals that the two patterns extract from the text of the
  price element and of the first weight match of the container. So a weight literal of
  0, or a literal that is no number, yields no annotation, and the calculator is never
  invoked with a weight of 0.
\<close>

theorem validation_guard:
  "(Injected q t \<in> set (snd (findAndProcessPrices doc)) \<longrightarrow>
      (\<exists>a. InjectorCalled a \<in> set (snd (findAndProcessPrices doc)) \<and> elPrice a = q
           \<and> t = calculateAndFormatUnit (priceKr a) (weightValue a) (weightUnit a)))
   \<and> (InjectorCalled b \<in> set (snd (findAndProcessPrices doc)) \<longrightarrow>
        \<not> isNaN (priceKr b) \<and> \<not> isNaN (weightValue b)
        \<and> greaterZero (priceKr b) \<and> greaterZero (weightValue b)
        \<and> weightValue b \<noteq> Finite False 0 \<and> weightValue b \<noteq> Finite True 0)
   \<and> (InjectorCalled c \<in> set (snd (processPriceElement d p)) \<longrightarrow>
        (\<exists>w ws pl pu wl wu.
           weightMatches d (container c) = w # ws
           \<and> regexMatch PRICE_REGEX (elementText d p) = Some (pl, pu)
           \<and> regexMatch WEIGHT_REGEX (textContent w) = Some (wl, wu)
           \<and> c = \<lparr>container = container c, elPrice = p, priceKr = cleanNumber pl,
                   weightValue = cleanNumber wl, weightUnit = wu\<rparr>
           \<and> \<not> isNaN (cleanNumber pl) \<and> \<not> isNaN (cleanNumber wl)
           \<and> greaterZero (cleanNumber pl) \<and> greaterZero (cleanNumber wl)))"
proof -
  have g: "guarded (snd (findAndProcessPrices doc))"
    using guarded_forEach [of doc "potentialPriceElements doc"] by (simp add: findAndProcessPrices_def)
  have i: "\<exists>a. InjectorCalled a \<in> set (snd (findAndProcessPrices doc)) \<and> elPrice a = q
           \<and> t = calculateAndFormatUnit (priceKr a) (weightValue a) (weightUnit a)"
    if "Injected q t \<in> set (snd (findAndProcessPrices doc))"
    using g that by (rule guarded_injected)
  have v: "\<not> isNaN (priceKr b) \<and> \<not> isNaN (weightValue b)
        \<and> greaterZero (priceKr b) \<and> greaterZero (weightValue b)
        \<and> weightValue b \<noteq> Finite False 0 \<and> weightValue b \<noteq> Finite True 0"
    if "InjectorCalled b \<in> set (snd (findAndProcessPrices doc))"
  proof -
    from g that have "validated b" by (rule guarded_called)
    then show ?thesis by (auto simp: validated_def)
  qed
  have l: "\<exists>w ws pl pu wl wu.
           weightMatches d (container c) = w # ws
           \<and> regexMatch PRICE_REGEX (elementText d p) = Some (pl, pu)
           \<and> regexMatch WEIGHT_REGEX (textContent w) = Some (wl, wu)
           \<and> c = \<lparr>container = container c, elPrice = p, priceKr = cleanNumber pl,
                   weightValue = cleanNumber wl, weightUnit = wu\<rparr>
           \<and> \<not> isNaN (cleanNumber pl) \<and> \<not> isNaN (cleanNumber wl)
           \<and> greaterZero (cleanNumber pl) \<and> greaterZero (cleanNumber wl)"
    if "InjectorCalled c \<in> set (snd (processPriceElement d p))"
  proof -
    from that have tc: "tryContainer d p (container c) = Some c" by (rule processPriceElement_called)
    from tryContainer_literals [OF tc] obtain w ws pl pu wl wu where
      lit: "weightMatches d (container c) = w # ws"
        "regexMatch PRICE_REGEX (elementText d p) = Some (pl, pu)"
        "regexMatch WEIGHT_REGEX (textContent w) = Some (wl, wu)"
        "c = \<lparr>container = container c, elPrice = p, priceKr = cleanNumber pl,
               weightValue = cleanNumber wl, weightUnit = wu\<rparr>"
      by blast
    from lit(4) have pw: "priceKr c = cleanNumber pl" "weightValue c = cleanNumber wl"
      by (metis productBlock.select_convs(3), metis productBlock.select_convs(4))
    from tryContainer_Some [OF tc] pw
    have "\<not> isNaN (cleanNumber pl) \<and> \<not> isNaN (cleanNumber wl)
           \<and> greaterZero (cleanNumber pl) \<and> greaterZero (cleanNumber wl)" by simp
    with lit show ?thesis by blast
  qed
  show ?thesis using i v l by blast
qed

text \<open>
  In \<open>zeroExample\<close> the only weight is \<open>0 g\<close>: the walk goes up to the root and
  nothing is inserted.
\<close>

theorem validation_guard_witness:
  "Injected 4 ''~198.00 / kg'' \<in> set (snd (findAndProcessPrices simpleExample))
   \<and> InjectorCalled \<lparr>container = 3, elPrice = 4, priceKr = Finite False 99,
                      weightValue = Finite False 500, weightUnit = ''g''\<rparr>
       \<in> set (snd (findAndProcessPrices simpleExample))
   \<and> InjectorCalled \<lparr>container = 3, elPrice = 4, priceKr = Finite False 99,
                      weightValue = Finite False 500, weightUnit = ''g''\<rparr>
       \<in> set (snd (processPriceElement simpleExample 4))
   \<and> greaterZero (Finite False 500) \<and> \<not> isNaN (Finite False 500)
   \<and> (\<exists>w ws pl pu wl wu.
         weightMatches simpleExample 3 = w # ws
         \<and> regexMatch PRICE_REGEX (elementText simpleExample 4) = Some (pl, pu)
         \<and> regexMatch WEIGHT_REGEX (textContent w) = Some (wl, wu)
         \<and> cleanNumber pl = Finite False 99 \<and> cleanNumber wl = Finite False 500 \<and> wu = ''g'')
   \<and> regexMatch WEIGHT_REGEX ''0 g'' = Some (''0'', ''g'')
   \<and> cleanNumber ''0'' = Finite False 0
   \<and> findAndProcessPrices zeroExample = (zeroExample, [Examined 4, Examined 3, Examined 2, Examined 1])"
proof -
  let ?b = "\<lparr>container = 3, elPrice = 4, priceKr = Finite False 99,
             weightValue = Finite False 500, weightUnit = ''g''\<rparr>"
  have a: "Injected 4 ''~198.00 / kg'' \<in> set (snd (findAndProcessPrices simpleExample))"
    unfolding simple_pass1 by simp
  have b: "InjectorCalled ?b \<in> set (snd (findAndProcessPrices simpleExample))"
    unfolding simple_pass1 by simp
  have c: "InjectorCalled ?b \<in> set (snd (processPriceElement simpleExample 4))"
    unfolding simple_step by simp
  note g = validation_guard [of 4 "''~198.00 / kg''" simpleExample ?b ?b simpleExample 4]
  from g b have v: "greaterZero (Finite False 500) \<and> \<not> isNaN (Finite False 500)" by simp
  from g c obtain w ws pl pu wl wu where
    lit: "weightMatches simpleExample 3 = w # ws"
      "regexMatch PRICE_REGEX (elementText simpleExample 4) = Some (pl, pu)"
      "regexMatch WEIGHT_REGEX (textContent w) = Some (wl, wu)"
      "?b = \<lparr>container = 3, elPrice = 4, priceKr = cleanNumber pl,
               weightValue = cleanNumber wl, weightUnit = wu\<rparr>"
    by auto
  from lit(4) have "cleanNumber pl = Finite False 99 \<and> cleanNumber wl = Finite False 500 \<and> wu = ''g''"
    by simp
  with lit have e: "\<exists>w ws pl pu wl wu.
         weightMatches simpleExample 3 = w # ws
         \<and> regexMatch PRICE_REGEX (elementText simpleExample 4) = Some (pl, pu)
         \<and> regexMatch WEIGHT_REGEX (textContent w) = Some (wl, wu)
         \<and> cleanNumber pl = Finite False 99 \<and> cleanNumber wl = Finite False 500 \<and> wu = ''g''"
    by blast
  show ?thesis using a b c v e zero_pass by blast
qed

end
